theory Spec2Isabelle
  imports Main "HOL-Library.Word"
begin

unbundle bit_operations_syntax

section \<open>The memory scheduler of nncase (src/schedule/scheduler.cpp)\<close>

text \<open>
  The scheduler works on a graph of heap objects that point at each other: nodes,
  their input connectors and their output connectors. An object is named by a number
  and a pointer dereference is the application of a total function, as a C++ pointer
  to a live object always denotes an object. Sizes, ages and counters are
  \<^verbatim>\<open>size_t\<close> in the source and \<^typ>\<open>nat\<close> here: no claim below
  depends on a counter reaching \<open>2 ^ 64\<close>.
\<close>

subsection \<open>Graph entities\<close>

type_synonym node_id = nat
type_synonym ic_id = nat
type_synonym oc_id = nat
type_synonym shape_t = "nat list"
type_synonym datatype_t = nat

datatype opcode =
  op_input_node | op_output_node | op_constant | op_bitcast | op_concat | op_slice
  | op_other nat

datatype memory_location_t = mem_input | mem_output | mem_rdata | mem_data

record input_connector =
  ic_owner :: node_id
  ic_shape :: shape_t
  connection :: oc_id

record output_connector =
  oc_owner :: node_id
  oc_shape :: shape_t
  oc_type :: datatype_t
  connections :: "ic_id list"

record node =
  runtime_opcode :: opcode
  attributes :: "32 word"
  inputs :: "ic_id list"
  outputs :: "oc_id list"
  axis :: nat
  concat_dims :: "nat list"

record graph =
  nodes :: "node_id \<Rightarrow> node"
  in_conns :: "ic_id \<Rightarrow> input_connector"
  out_conns :: "oc_id \<Rightarrow> output_connector"

text \<open>
  Modelled from the spec: the constant \<^verbatim>\<open>node_attr_action\<close> of the attributes
  bitmask ("notably \<^verbatim>\<open>action\<close>, meaning must execute at runtime"); its
  declaration is in a header that is not part of the sources at hand. It is one bit.
\<close>

definition node_attr_action :: "32 word" where
  "node_attr_action = 1"

definition is_action :: "node \<Rightarrow> bool" where
  "is_action nd = (attributes nd AND node_attr_action \<noteq> 0)"

definition clear_action :: "node_id \<Rightarrow> graph \<Rightarrow> graph" where
  "clear_action n g =
     g\<lparr>nodes := (nodes g)(n := (nodes g n)\<lparr>attributes := attributes (nodes g n) AND NOT node_attr_action\<rparr>)\<rparr>"

text \<open>The node that owns the output connector an input connector is connected to.\<close>

definition producer :: "graph \<Rightarrow> ic_id \<Rightarrow> node_id" where
  "producer g i = oc_owner (out_conns g (connection (in_conns g i)))"

definition consumer_opcode :: "graph \<Rightarrow> ic_id \<Rightarrow> opcode" where
  "consumer_opcode g i = runtime_opcode (nodes g (ic_owner (in_conns g i)))"

subsection \<open>Scheduler entities\<close>

text \<open>
  Modelled from the spec: \<^verbatim>\<open>buffer_lifetime\<close>, \<^verbatim>\<open>sub_buffer_desc\<close>,
  \<^verbatim>\<open>logical_buffer\<close>, \<^verbatim>\<open>physical_buffer\<close> and \<^verbatim>\<open>buffer_allocation\<close>
  are declared in headers that are not part of the sources at hand; the fields are the
  ones of section 3 of the specification, with \<open>is_alive \<longleftrightarrow> used_count > 0\<close> and
  \<open>end = birth + age\<close>. A pointer to a logical buffer is the key of the buffer in
  \<^verbatim>\<open>logical_buffers_\<close> (the map is node based, so the address of an entry never
  changes); a pointer to a physical buffer is its index in
  \<^verbatim>\<open>physical_buffers_\<close>.
\<close>

record buffer_lifetime =
  used_count :: nat
  birth :: nat
  age :: nat

definition is_alive :: "buffer_lifetime \<Rightarrow> bool" where
  "is_alive l = (used_count l > 0)"

definition lifetime_end :: "buffer_lifetime \<Rightarrow> nat" where
  "lifetime_end l = birth l + age l"

record sub_buffer_desc =
  pd_parent :: oc_id
  pd_begin :: shape_t

record logical_buffer =
  lb_id :: nat
  lb_owner :: oc_id
  lb_memory_location :: memory_location_t
  lb_lifetime :: buffer_lifetime
  lb_parent :: "sub_buffer_desc option"
  lb_physical :: "nat option"

record memory_span =
  ms_start :: nat
  ms_size :: nat

record physical_buffer =
  pb_id :: nat
  pb_owner :: oc_id
  pb_lifetime :: buffer_lifetime
  pb_allocation :: memory_span

record buffer_allocation =
  ba_memory_location :: memory_location_t
  ba_type :: datatype_t
  ba_size :: nat
  ba_shape :: shape_t
  ba_parent_shape :: shape_t
  ba_strides :: shape_t
  ba_start :: nat

type_synonym buffer_map = "oc_id \<rightharpoonup> logical_buffer"

record scheduler =
  sgraph :: graph
  sched_outputs :: "node_id list"
  logical_buffers :: buffer_map
  physical_buffers :: "physical_buffer list"

record schedule_result =
  compute_sequence :: "node_id list"
  allocations :: "oc_id \<rightharpoonup> buffer_allocation"
  max_usages :: "memory_location_t \<rightharpoonup> nat"

text \<open>
  What the source can do besides returning: \<^verbatim>\<open>release\<close> throws a
  \<^verbatim>\<open>std::runtime_error\<close>, the \<^verbatim>\<open>at\<close> of a map or vector throws
  \<^verbatim>\<open>std::out_of_range\<close>, and reading a vector past its end or an empty
  optional is undefined.
\<close>

datatype error = Trying_to_free_a_released_buffer | Out_of_range | Undefined_behaviour

subsection \<open>Running a visitor body over a list of nodes\<close>

fun efold :: "('a \<Rightarrow> 's \<Rightarrow> error + 's) \<Rightarrow> 'a list \<Rightarrow> 's \<Rightarrow> error + 's" where
  "efold f [] s = Inr s"
| "efold f (x # xs) s = (case f x s of Inl e \<Rightarrow> Inl e | Inr s' \<Rightarrow> efold f xs s')"

subsection \<open>decide_memory_location, to_strides\<close>

definition decide_memory_location :: "graph \<Rightarrow> oc_id \<Rightarrow> memory_location_t" where
  "decide_memory_location g conn =
     (let opcode = runtime_opcode (nodes g (oc_owner (out_conns g conn))) in
      if opcode = op_input_node then mem_input
      else if opcode = op_constant then mem_rdata
      else if list_ex (\<lambda>c. consumer_opcode g c = op_output_node) (connections (out_conns g conn))
      then mem_output
      else mem_data)"

subsection \<open>lifetime_recorder\<close>

record lifetime_recorder =
  next_buffer_id :: nat
  cnt_age :: nat
  buffers :: buffer_map

definition allocate :: "graph \<Rightarrow> oc_id \<Rightarrow> lifetime_recorder \<Rightarrow> lifetime_recorder" where
  "allocate g conn lr =
     (case buffers lr conn of
        Some b \<Rightarrow> lr
      | None \<Rightarrow>
          lr\<lparr>next_buffer_id := next_buffer_id lr + 1,
             buffers := (buffers lr)(conn \<mapsto>
               \<lparr>lb_id = next_buffer_id lr, lb_owner = conn,
                lb_memory_location = decide_memory_location g conn,
                lb_lifetime = \<lparr>used_count = length (connections (out_conns g conn)),
                               birth = cnt_age lr, age = 0\<rparr>,
                lb_parent = None, lb_physical = None\<rparr>)\<rparr>)"

definition release :: "oc_id \<Rightarrow> lifetime_recorder \<Rightarrow> error + lifetime_recorder" where
  "release conn lr =
     (case buffers lr conn of
        None \<Rightarrow> Inr lr
      | Some b \<Rightarrow>
          if \<not> is_alive (lb_lifetime b) then Inl Trying_to_free_a_released_buffer
          else Inr (lr\<lparr>buffers := (buffers lr)(conn \<mapsto>
                 b\<lparr>lb_lifetime := (lb_lifetime b)\<lparr>used_count := used_count (lb_lifetime b) - 1\<rparr>\<rparr>)\<rparr>))"

definition grow_age :: "lifetime_recorder \<Rightarrow> lifetime_recorder" where
  "grow_age lr =
     lr\<lparr>cnt_age := cnt_age lr + 1,
        buffers := (\<lambda>k. map_option
          (\<lambda>b. if is_alive (lb_lifetime b)
               then b\<lparr>lb_lifetime := (lb_lifetime b)\<lparr>age := age (lb_lifetime b) + 1\<rparr>\<rparr>
               else b) (buffers lr k))\<rparr>"

text \<open>The body of the visitor of \<^verbatim>\<open>make_logical_buffers\<close>, for one node.\<close>

definition make_logical_buffers_visit ::
  "graph \<Rightarrow> node_id \<Rightarrow> lifetime_recorder \<Rightarrow> error + lifetime_recorder" where
  "make_logical_buffers_visit g n lr =
     efold (\<lambda>i. release (connection (in_conns g i))) (inputs (nodes g n))
       (grow_age (fold (allocate g) (outputs (nodes g n)) lr))"

subsection \<open>The graph visitor\<close>

text \<open>
  Modelled from the spec: \<^verbatim>\<open>make_relay_ir_visitor\<close> and its \<^verbatim>\<open>visit\<close>
  are declared in \<^verbatim>\<open>nncase/ir/visitor.h\<close>, which is not part of the sources at
  hand. Section 4.1 of the specification: "A post-order traversal rooted at the graph
  outputs. Each node is visited exactly once." The traversal is a depth-first search
  that marks a node, descends into the producers of its inputs in declaration order and
  then visits the node. The recursion depth is bounded by the fuel; \<open>None\<close> is a
  traversal that needs more.
\<close>

fun ofold :: "('a \<Rightarrow> 's \<Rightarrow> 's option) \<Rightarrow> 'a list \<Rightarrow> 's \<Rightarrow> 's option" where
  "ofold f [] s = Some s"
| "ofold f (x # xs) s = (case f x s of None \<Rightarrow> None | Some s' \<Rightarrow> ofold f xs s')"

fun visit_strategy ::
  "nat \<Rightarrow> graph \<Rightarrow> node_id \<Rightarrow> node_id list \<times> node_id list \<Rightarrow> (node_id list \<times> node_id list) option" where
  "visit_strategy 0 g n s = None"
| "visit_strategy (Suc fuel) g n (visited, order) =
     (if n \<in> set visited then Some (visited, order)
      else case ofold (\<lambda>i. visit_strategy fuel g (producer g i)) (inputs (nodes g n))
                  (n # visited, order) of
             None \<Rightarrow> None
           | Some (visited', order') \<Rightarrow> Some (visited', order' @ [n]))"

definition visit_order :: "nat \<Rightarrow> graph \<Rightarrow> node_id list \<Rightarrow> node_id list option" where
  "visit_order fuel g outs = map_option snd (ofold (visit_strategy fuel g) outs ([], []))"

text \<open>
  A pass either does not return (\<open>None\<close>), raises (\<open>Some (Inl e)\<close>) or returns
  (\<open>Some (Inr s)\<close>).
\<close>

type_synonym 'a outcome = "(error + 'a) option"

definition relay_ir_visit ::
  "nat \<Rightarrow> graph \<Rightarrow> node_id list \<Rightarrow> (node_id \<Rightarrow> 's \<Rightarrow> error + 's) \<Rightarrow> 's \<Rightarrow> 's outcome" where
  "relay_ir_visit fuel g outs body s = map_option (\<lambda>order. efold body order s) (visit_order fuel g outs)"

definition obind :: "'a outcome \<Rightarrow> ('a \<Rightarrow> 'b outcome) \<Rightarrow> 'b outcome" where
  "obind m f = (case m of None \<Rightarrow> None | Some (Inl e) \<Rightarrow> Some (Inl e) | Some (Inr x) \<Rightarrow> f x)"

subsection \<open>generate_compute_sequence, make_logical_buffers\<close>

definition compute_sequence_visit :: "graph \<Rightarrow> node_id \<Rightarrow> schedule_result \<Rightarrow> error + schedule_result" where
  "compute_sequence_visit g n result =
     (if is_action (nodes g n)
      then Inr (result\<lparr>compute_sequence := compute_sequence result @ [n]\<rparr>)
      else Inr result)"

definition generate_compute_sequence ::
  "nat \<Rightarrow> scheduler \<Rightarrow> schedule_result \<Rightarrow> schedule_result outcome" where
  "generate_compute_sequence fuel s result =
     relay_ir_visit fuel (sgraph s) (sched_outputs s) (compute_sequence_visit (sgraph s)) result"

definition make_logical_buffers :: "nat \<Rightarrow> scheduler \<Rightarrow> scheduler outcome" where
  "make_logical_buffers fuel s =
     map_option (map_sum id (\<lambda>lr. s\<lparr>logical_buffers := buffers lr\<rparr>))
       (relay_ir_visit fuel (sgraph s) (sched_outputs s) (make_logical_buffers_visit (sgraph s))
          \<lparr>next_buffer_id = 0, cnt_age = 0, buffers = logical_buffers s\<rparr>)"

subsection \<open>analyze_buffer_alias\<close>

definition memory_location_of :: "buffer_map \<Rightarrow> oc_id \<Rightarrow> memory_location_t" where
  "memory_location_of bufs k = lb_memory_location (the (bufs k))"

definition set_memory_location :: "oc_id \<Rightarrow> memory_location_t \<Rightarrow> buffer_map \<Rightarrow> buffer_map" where
  "set_memory_location k l bufs = bufs(k \<mapsto> (the (bufs k))\<lparr>lb_memory_location := l\<rparr>)"

definition set_parent :: "oc_id \<Rightarrow> sub_buffer_desc \<Rightarrow> buffer_map \<Rightarrow> buffer_map" where
  "set_parent k d bufs = bufs(k \<mapsto> (the (bufs k))\<lparr>lb_parent := Some d\<rparr>)"

text \<open>
  The bitcast branch. \<^verbatim>\<open>b->input()\<close> and \<^verbatim>\<open>b->output()\<close> are the first
  input and the first output connector; a bitcast without them is not a node the
  constructor of \<^verbatim>\<open>bitcast\<close> builds.
\<close>

definition alias_bitcast :: "node_id \<Rightarrow> scheduler \<Rightarrow> error + scheduler" where
  "alias_bitcast n s =
     (let g = sgraph s; b = nodes g n in
      case (inputs b, outputs b) of
        (i # _, out # _) \<Rightarrow>
          (let input = connection (in_conns g i); bufs = logical_buffers s in
           if bufs input = None \<or> bufs out = None then Inl Out_of_range
           else
             let bufs1 = (if memory_location_of bufs out = mem_output
                              \<and> memory_location_of bufs input = mem_data
                          then set_memory_location input mem_output bufs else bufs) in
             if memory_location_of bufs1 out \<noteq> mem_output
                \<or> (memory_location_of bufs1 input \<noteq> mem_input
                    \<and> memory_location_of bufs1 input \<noteq> mem_rdata)
             then
               let begin = replicate (length (oc_shape (out_conns g input))) 0 in
               Inr (s\<lparr>sgraph := clear_action n g,
                      logical_buffers := set_parent out \<lparr>pd_parent = input, pd_begin = begin\<rparr> bufs1\<rparr>)
             else Inr (s\<lparr>logical_buffers := bufs1\<rparr>))
      | _ \<Rightarrow> Inl Undefined_behaviour)"

text \<open>
  The three conjuncts of the concat branch, evaluated left to right as \<^verbatim>\<open>&&\<close>
  does: a later one is not evaluated (and cannot raise) when an earlier one is false,
  and \<^verbatim>\<open>std::all_of\<close> stops at the first input that fails.
\<close>

definition concat_is_simple :: "graph \<Rightarrow> node \<Rightarrow> error + bool" where
  "concat_is_simple g c =
     (if axis c = 0 then Inr True
      else case inputs c of
             [] \<Rightarrow> Inl Undefined_behaviour
           | i # _ \<Rightarrow>
               if axis c \<le> length (ic_shape (in_conns g i))
               then Inr (list_all (\<lambda>dim. dim = 1) (take (axis c) (ic_shape (in_conns g i))))
               else Inl Undefined_behaviour)"

fun concat_inputs_exclusive :: "graph \<Rightarrow> buffer_map \<Rightarrow> ic_id list \<Rightarrow> error + bool" where
  "concat_inputs_exclusive g bufs [] = Inr True"
| "concat_inputs_exclusive g bufs (i # is) =
     (case bufs (connection (in_conns g i)) of
        None \<Rightarrow> Inl Out_of_range
      | Some in_buf \<Rightarrow>
          if (lb_memory_location in_buf \<noteq> mem_input \<and> lb_memory_location in_buf \<noteq> mem_rdata)
             \<and> runtime_opcode (nodes g (producer g i)) \<noteq> op_slice
          then concat_inputs_exclusive g bufs is
          else Inr False)"

definition concat_consumers :: "graph \<Rightarrow> ic_id list \<Rightarrow> nat" where
  "concat_consumers g outs = length (filter (\<lambda>i. consumer_opcode g i = op_concat) outs)"

definition alias_concat :: "node_id \<Rightarrow> scheduler \<Rightarrow> error + scheduler" where
  "alias_concat n s =
     (let g = sgraph s; c = nodes g n in
      case outputs c of
        [] \<Rightarrow> Inl Undefined_behaviour
      | out # _ \<Rightarrow>
          (case concat_is_simple g c of
             Inl e \<Rightarrow> Inl e
           | Inr False \<Rightarrow> Inr s
           | Inr True \<Rightarrow>
               (case concat_inputs_exclusive g (logical_buffers s) (inputs c) of
                  Inl e \<Rightarrow> Inl e
                | Inr False \<Rightarrow> Inr s
                | Inr True \<Rightarrow>
                    if concat_consumers g (connections (out_conns g out)) < 2
                    then Inr (s\<lparr>sgraph := clear_action n g\<rparr>)
                    else Inr s)))"

definition alias_visit :: "node_id \<Rightarrow> scheduler \<Rightarrow> error + scheduler" where
  "alias_visit n s =
     (if runtime_opcode (nodes (sgraph s) n) = op_bitcast then alias_bitcast n s
      else if runtime_opcode (nodes (sgraph s) n) = op_concat then alias_concat n s
      else Inr s)"

definition analyze_buffer_alias :: "nat \<Rightarrow> scheduler \<Rightarrow> scheduler outcome" where
  "analyze_buffer_alias fuel s = relay_ir_visit fuel (sgraph s) (sched_outputs s) alias_visit s"

subsection \<open>fix_concat_indices\<close>

text \<open>
  Modelled from the spec: \<^verbatim>\<open>try_get_direct_child\<close> and
  \<^verbatim>\<open>get_input_index\<close> are declared in \<^verbatim>\<open>nncase/ir/op_utils.h\<close>, which is
  not part of the sources at hand. Section 4.3 of the specification: "if the concat's
  output itself has exactly one consumer and that consumer is also a view-concat (let
  it be parent), compute the index of this concat among parent's inputs". Whether the
  consumer is a view is tested by the caller.
\<close>

definition try_get_direct_child_concat :: "graph \<Rightarrow> node_id \<Rightarrow> node_id option" where
  "try_get_direct_child_concat g n =
     (case outputs (nodes g n) of
        [] \<Rightarrow> None
      | out # _ \<Rightarrow>
          (case connections (out_conns g out) of
             [i] \<Rightarrow> if consumer_opcode g i = op_concat then Some (ic_owner (in_conns g i)) else None
           | _ \<Rightarrow> None))"

fun index_of :: "('a \<Rightarrow> bool) \<Rightarrow> 'a list \<Rightarrow> nat option" where
  "index_of P [] = None"
| "index_of P (x # xs) = (if P x then Some 0 else map_option Suc (index_of P xs))"

definition get_input_index :: "graph \<Rightarrow> node_id \<Rightarrow> oc_id \<Rightarrow> nat option" where
  "get_input_index g n input = index_of (\<lambda>i. connection (in_conns g i) = input) (inputs (nodes g n))"

text \<open>
  Modelled from the spec: \<^verbatim>\<open>+=\<close> on two \<^verbatim>\<open>shape_t\<close> is not part of the
  sources at hand; the specification has the offset added to "each previously-recorded
  begin", coordinate by coordinate.
\<close>

definition shape_add :: "shape_t \<Rightarrow> shape_t \<Rightarrow> shape_t" where
  "shape_add a b = map2 (+) a b"

text \<open>Step 1 of the visitor: the offsets of the inputs inside the output of the concat.\<close>

fun init_indices ::
  "graph \<Rightarrow> nat \<Rightarrow> oc_id \<Rightarrow> ic_id list \<Rightarrow> shape_t \<Rightarrow> buffer_map \<Rightarrow> error + buffer_map" where
  "init_indices g ax out_buf [] cnt_begin bufs = Inr bufs"
| "init_indices g ax out_buf (i # is) cnt_begin bufs =
     (if bufs (connection (in_conns g i)) = None then Inl Out_of_range
      else if ax < length cnt_begin \<and> ax < length (ic_shape (in_conns g i))
      then init_indices g ax out_buf is
             (cnt_begin[ax := cnt_begin ! ax + ic_shape (in_conns g i) ! ax])
             (set_parent (connection (in_conns g i)) \<lparr>pd_parent = out_buf, pd_begin = cnt_begin\<rparr> bufs)
      else Inl Undefined_behaviour)"

text \<open>The inner loop of step 2: every input of \<open>c\<close> is pointed at the parent's output.\<close>

fun repoint_inputs :: "graph \<Rightarrow> oc_id \<Rightarrow> shape_t \<Rightarrow> ic_id list \<Rightarrow> buffer_map \<Rightarrow> error + buffer_map" where
  "repoint_inputs g out_buf child_begin [] bufs = Inr bufs"
| "repoint_inputs g out_buf child_begin (i # is) bufs =
     (case bufs (connection (in_conns g i)) of
        None \<Rightarrow> Inl Out_of_range
      | Some in_buf \<Rightarrow>
          (case lb_parent in_buf of
             None \<Rightarrow> Inl Undefined_behaviour
           | Some desc \<Rightarrow>
               repoint_inputs g out_buf child_begin is
                 (bufs(connection (in_conns g i) \<mapsto>
                    in_buf\<lparr>lb_parent := Some \<lparr>pd_parent = out_buf,
                                               pd_begin = shape_add (pd_begin desc) child_begin\<rparr>\<rparr>))))"

text \<open>Step 2, the \<^verbatim>\<open>while (true)\<close> loop; it does not return on a cycle of views.\<close>

partial_function (option) iterate_parent ::
  "graph \<Rightarrow> node_id \<Rightarrow> node_id \<Rightarrow> buffer_map \<Rightarrow> (error + buffer_map) option" where
  "iterate_parent g c child bufs =
     (case try_get_direct_child_concat g child of
        None \<Rightarrow> Some (Inr bufs)
      | Some parent \<Rightarrow>
          if is_action (nodes g parent) then Some (Inr bufs)
          else
            (case outputs (nodes g child) of
               [] \<Rightarrow> Some (Inl Undefined_behaviour)
             | child_out # _ \<Rightarrow>
                 (case get_input_index g parent child_out of
                    None \<Rightarrow> Some (Inl Out_of_range)
                  | Some index \<Rightarrow>
                      let ax = axis (nodes g parent);
                          rank = length (oc_shape (out_conns g child_out)) in
                      if \<not> (ax < rank \<and> index \<le> length (concat_dims (nodes g parent)))
                      then Some (Inl Undefined_behaviour)
                      else
                        let child_begin = (replicate rank 0)
                              [ax := sum_list (take index (concat_dims (nodes g parent)))] in
                        if bufs child_out = None then Some (Inl Out_of_range)
                        else
                          (case outputs (nodes g parent) of
                             [] \<Rightarrow> Some (Inl Undefined_behaviour)
                           | parent_out # _ \<Rightarrow>
                               if bufs parent_out = None then Some (Inl Out_of_range)
                               else
                                 (case repoint_inputs g parent_out child_begin (inputs (nodes g c))
                                         (set_parent child_out
                                            \<lparr>pd_parent = parent_out, pd_begin = child_begin\<rparr> bufs) of
                                    Inl e \<Rightarrow> Some (Inl e)
                                  | Inr bufs' \<Rightarrow> iterate_parent g c parent bufs')))))"

definition fix_concat_visit :: "graph \<Rightarrow> node_id \<Rightarrow> buffer_map \<Rightarrow> (error + buffer_map) option" where
  "fix_concat_visit g n bufs =
     (let c = nodes g n in
      if runtime_opcode c = op_concat then
        if is_action c then Some (Inr bufs)
        else
          (case outputs c of
             [] \<Rightarrow> Some (Inl Undefined_behaviour)
           | out # _ \<Rightarrow>
               if bufs out = None then Some (Inl Out_of_range)
               else
                 (case inputs c of
                    [] \<Rightarrow> Some (Inl Undefined_behaviour)
                  | i # _ \<Rightarrow>
                      (case init_indices g (axis c) out (inputs c)
                              (replicate (length (ic_shape (in_conns g i))) 0) bufs of
                         Inl e \<Rightarrow> Some (Inl e)
                       | Inr bufs' \<Rightarrow> iterate_parent g n n bufs')))
      else Some (Inr bufs))"

fun vfold :: "('a \<Rightarrow> 's \<Rightarrow> 's outcome) \<Rightarrow> 'a list \<Rightarrow> 's \<Rightarrow> 's outcome" where
  "vfold f [] s = Some (Inr s)"
| "vfold f (x # xs) s = obind (f x s) (vfold f xs)"

definition fix_concat_indices :: "nat \<Rightarrow> scheduler \<Rightarrow> scheduler outcome" where
  "fix_concat_indices fuel s =
     (case visit_order fuel (sgraph s) (sched_outputs s) of
        None \<Rightarrow> None
      | Some order \<Rightarrow>
          obind (vfold (fix_concat_visit (sgraph s)) order (logical_buffers s))
            (\<lambda>bufs. Some (Inr (s\<lparr>logical_buffers := bufs\<rparr>))))"

subsection \<open>fix_lifetime\<close>

text \<open>
  The two loops run over \<^verbatim>\<open>logical_buffers_\<close>, an unordered map: \<open>ks\<close> is the
  order in which the map enumerates its keys. In the first loop \<^verbatim>\<open>p\<close> is a
  reference to the parent field of the buffer, so every round of the inner
  \<^verbatim>\<open>while\<close> stores into the map; the loop does not return on a cycle of parents.
\<close>

partial_function (option) assign_parent :: "oc_id \<Rightarrow> buffer_map \<Rightarrow> (error + buffer_map) option" where
  "assign_parent k bufs =
     (case bufs k of
        None \<Rightarrow> Some (Inl Undefined_behaviour)
      | Some b \<Rightarrow>
          (case lb_parent b of
             None \<Rightarrow> Some (Inr bufs)
           | Some p \<Rightarrow>
               (case bufs (pd_parent p) of
                  None \<Rightarrow> Some (Inl Undefined_behaviour)
                | Some pb \<Rightarrow>
                    (case lb_parent pb of
                       None \<Rightarrow> Some (Inr bufs)
                     | Some q \<Rightarrow> assign_parent k (bufs(k \<mapsto> b\<lparr>lb_parent := Some q\<rparr>))))))"

definition extend_lifetime :: "oc_id \<Rightarrow> buffer_map \<Rightarrow> buffer_map outcome" where
  "extend_lifetime k bufs =
     (case bufs k of
        None \<Rightarrow> Some (Inl Undefined_behaviour)
      | Some b \<Rightarrow>
          (case lb_parent b of
             None \<Rightarrow> Some (Inr bufs)
           | Some p \<Rightarrow>
               (case bufs (pd_parent p) of
                  None \<Rightarrow> Some (Inl Undefined_behaviour)
                | Some pb \<Rightarrow>
                    let lifetime = lb_lifetime b;
                        p_liftime = lb_lifetime pb;
                        birth' = min (birth lifetime) (birth p_liftime);
                        end' = max (lifetime_end lifetime) (lifetime_end p_liftime) in
                    Some (Inr (bufs(pd_parent p \<mapsto>
                      pb\<lparr>lb_lifetime := p_liftime\<lparr>birth := birth', age := end' - birth'\<rparr>\<rparr>))))))"

definition fix_lifetime_buffers :: "oc_id list \<Rightarrow> buffer_map \<Rightarrow> buffer_map outcome" where
  "fix_lifetime_buffers ks bufs = obind (vfold assign_parent ks bufs) (vfold extend_lifetime ks)"

definition fix_lifetime :: "oc_id list \<Rightarrow> scheduler \<Rightarrow> scheduler outcome" where
  "fix_lifetime ks s =
     obind (fix_lifetime_buffers ks (logical_buffers s))
       (\<lambda>bufs. Some (Inr (s\<lparr>logical_buffers := bufs\<rparr>)))"

subsection \<open>make_physical_buffers\<close>

text \<open>
  \<^verbatim>\<open>physical_ids\<close> is a local map from root buffers to indices; its size is the
  number of entries, so it is kept as the list of its entries in insertion order.
  A physical buffer is constructed from its id and its owner and copies the lifetime of
  the owner.
\<close>

definition physical_ids_emplace :: "oc_id \<Rightarrow> nat \<Rightarrow> (oc_id \<times> nat) list \<Rightarrow> (oc_id \<times> nat) list" where
  "physical_ids_emplace k v ids = (if map_of ids k = None then ids @ [(k, v)] else ids)"

definition make_physical_visit ::
  "buffer_map \<Rightarrow> oc_id \<Rightarrow> (oc_id \<times> nat) list \<times> physical_buffer list
     \<Rightarrow> (oc_id \<times> nat) list \<times> physical_buffer list" where
  "make_physical_visit bufs k st =
     (case st of (physical_ids, pbs) \<Rightarrow>
        (case bufs k of
           None \<Rightarrow> st
         | Some b \<Rightarrow>
             if lb_parent b = None
             then (let ident = length physical_ids in
                   (physical_ids_emplace k ident physical_ids,
                    pbs @ [\<lparr>pb_id = ident, pb_owner = k, pb_lifetime = lb_lifetime b,
                            pb_allocation = \<lparr>ms_start = 0, ms_size = 0\<rparr>\<rparr>]))
             else st))"

definition bind_physical ::
  "(oc_id \<times> nat) list \<Rightarrow> nat \<Rightarrow> oc_id \<Rightarrow> buffer_map \<Rightarrow> error + buffer_map" where
  "bind_physical physical_ids npbs k bufs =
     (case bufs k of
        None \<Rightarrow> Inl Undefined_behaviour
      | Some b \<Rightarrow>
          let parent = (case lb_parent b of Some d \<Rightarrow> pd_parent d | None \<Rightarrow> k) in
          (case map_of physical_ids parent of
             None \<Rightarrow> Inl Out_of_range
           | Some ident \<Rightarrow>
               if ident < npbs then Inr (bufs(k \<mapsto> b\<lparr>lb_physical := Some ident\<rparr>))
               else Inl Out_of_range))"

definition make_physical_buffers :: "oc_id list \<Rightarrow> scheduler \<Rightarrow> error + scheduler" where
  "make_physical_buffers ks s =
     (case fold (make_physical_visit (logical_buffers s)) ks ([], physical_buffers s) of
        (physical_ids, pbs) \<Rightarrow>
          (case efold (bind_physical physical_ids (length pbs)) ks (logical_buffers s) of
             Inl e \<Rightarrow> Inl e
           | Inr bufs \<Rightarrow> Inr (s\<lparr>logical_buffers := bufs, physical_buffers := pbs\<rparr>)))"

subsection \<open>allocate_physical_buffers\<close>

text \<open>
  Modelled from the spec: the target and its allocators are external collaborators
  (section 6, "Allocator contract": \<^verbatim>\<open>mark\<close>, \<^verbatim>\<open>finish\<close>,
  \<^verbatim>\<open>max_usage\<close>, \<^verbatim>\<open>allocations\<close>). An allocator is the function from the
  sequence of buffers it was given by \<^verbatim>\<open>mark\<close> to the allocations and the peak
  usage it reports after \<^verbatim>\<open>finish\<close>; the target registers at most one allocator
  for a memory location. \<^verbatim>\<open>std::sort\<close> is not stable, so the order it leaves
  buffers of equal birth in is a parameter, \<open>std_sort\<close>.
\<close>

type_synonym buffer_allocator = "(nat \<times> physical_buffer) list \<Rightarrow> (nat \<rightharpoonup> memory_span) \<times> nat"

type_synonym target = "memory_location_t \<rightharpoonup> buffer_allocator"

definition physical_location :: "buffer_map \<Rightarrow> physical_buffer \<Rightarrow> memory_location_t" where
  "physical_location bufs b = memory_location_of bufs (pb_owner b)"

definition marked :: "buffer_map \<Rightarrow> (nat \<times> physical_buffer) list \<Rightarrow> memory_location_t
    \<Rightarrow> (nat \<times> physical_buffer) list" where
  "marked bufs orders l = filter (\<lambda>(i, b). physical_location bufs b = l) orders"

fun assign_physical ::
  "target \<Rightarrow> buffer_map \<Rightarrow> (nat \<times> physical_buffer) list \<Rightarrow> (nat \<times> physical_buffer) list
     \<Rightarrow> error + physical_buffer list" where
  "assign_physical allocators bufs orders [] = Inr []"
| "assign_physical allocators bufs orders ((i, b) # bs) =
     (case allocators (physical_location bufs b) of
        None \<Rightarrow> Inl Out_of_range
      | Some alloc \<Rightarrow>
          (case fst (alloc (marked bufs orders (physical_location bufs b))) i of
             None \<Rightarrow> Inl Out_of_range
           | Some m \<Rightarrow>
               (case assign_physical allocators bufs orders bs of
                  Inl e \<Rightarrow> Inl e
                | Inr bs' \<Rightarrow> Inr (b\<lparr>pb_allocation := m\<rparr> # bs'))))"

definition allocate_physical_buffers ::
  "target \<Rightarrow> ((nat \<times> physical_buffer) list \<Rightarrow> (nat \<times> physical_buffer) list)
     \<Rightarrow> scheduler \<Rightarrow> schedule_result \<Rightarrow> error + scheduler \<times> schedule_result" where
  "allocate_physical_buffers allocators std_sort s result =
     (let bufs = logical_buffers s;
          pbs = physical_buffers s;
          orders = std_sort (zip [0 ..< length pbs] pbs) in
      if list_ex (\<lambda>(i, b). allocators (physical_location bufs b) = None) orders
      then Inl Out_of_range
      else
        let usages = (\<lambda>l. case max_usages result l of
                             Some u \<Rightarrow> Some u
                           | None \<Rightarrow> map_option (\<lambda>alloc. snd (alloc (marked bufs orders l))) (allocators l)) in
        (case assign_physical allocators bufs orders (zip [0 ..< length pbs] pbs) of
           Inl e \<Rightarrow> Inl e
         | Inr pbs' \<Rightarrow> Inr (s\<lparr>physical_buffers := pbs'\<rparr>, result\<lparr>max_usages := usages\<rparr>)))"

subsection \<open>assign_allocations\<close>

text \<open>
  Modelled from the spec: \<^verbatim>\<open>ir::get_bytes\<close>, \<^verbatim>\<open>xt::compute_strides\<close> and
  \<^verbatim>\<open>xt::element_offset\<close> are not part of the sources at hand. Section 4.8 of the
  specification has "size = element_bytes(type) * product(shape)", "row-major strides
  derived from parent_shape" and "dot(strides, parent.begin)". The size of an element
  of each type, \<open>element_bytes\<close>, is a parameter.
\<close>

definition get_bytes :: "(datatype_t \<Rightarrow> nat) \<Rightarrow> datatype_t \<Rightarrow> shape_t \<Rightarrow> nat" where
  "get_bytes element_bytes t shape = element_bytes t * prod_list shape"

fun to_strides :: "shape_t \<Rightarrow> shape_t" where
  "to_strides [] = []"
| "to_strides (d # ds) = prod_list ds # to_strides ds"

definition element_offset :: "shape_t \<Rightarrow> shape_t \<Rightarrow> nat" where
  "element_offset strides index = sum_list (map2 (*) strides index)"

text \<open>The shape and the type of a logical buffer are the ones of its owning connector.\<close>

definition lb_shape :: "graph \<Rightarrow> logical_buffer \<Rightarrow> shape_t" where
  "lb_shape g b = oc_shape (out_conns g (lb_owner b))"

definition lb_type :: "graph \<Rightarrow> logical_buffer \<Rightarrow> datatype_t" where
  "lb_type g b = oc_type (out_conns g (lb_owner b))"

definition make_allocation ::
  "(datatype_t \<Rightarrow> nat) \<Rightarrow> graph \<Rightarrow> node \<Rightarrow> logical_buffer \<Rightarrow> logical_buffer \<Rightarrow> memory_span
     \<Rightarrow> buffer_allocation" where
  "make_allocation element_bytes g nd lbuf owner memory =
     (let parent_shape = (if lb_parent lbuf \<noteq> None \<and> runtime_opcode nd \<noteq> op_bitcast
                          then lb_shape g owner else lb_shape g lbuf);
          strides = to_strides parent_shape in
      \<lparr>ba_memory_location = lb_memory_location owner,
       ba_type = lb_type g lbuf,
       ba_size = get_bytes element_bytes (lb_type g lbuf) (lb_shape g lbuf),
       ba_shape = lb_shape g lbuf,
       ba_parent_shape = parent_shape,
       ba_strides = strides,
       ba_start = (case lb_parent lbuf of
                     None \<Rightarrow> ms_start memory
                   | Some d \<Rightarrow> ms_start memory
                       + element_bytes (lb_type g lbuf) * element_offset strides (pd_begin d))\<rparr>)"

definition assign_allocation ::
  "(datatype_t \<Rightarrow> nat) \<Rightarrow> scheduler \<Rightarrow> node_id \<Rightarrow> oc_id \<Rightarrow> schedule_result \<Rightarrow> error + schedule_result" where
  "assign_allocation element_bytes s n out result =
     (case logical_buffers s out of
        None \<Rightarrow> Inl Out_of_range
      | Some lbuf \<Rightarrow>
          (case lb_physical lbuf of
             None \<Rightarrow> Inl Undefined_behaviour
           | Some p \<Rightarrow>
               if p < length (physical_buffers s) then
                 (case logical_buffers s (pb_owner (physical_buffers s ! p)) of
                    None \<Rightarrow> Inl Undefined_behaviour
                  | Some owner \<Rightarrow>
                      Inr (if allocations result out = None
                           then result\<lparr>allocations := (allocations result)(out \<mapsto>
                                  make_allocation element_bytes (sgraph s) (nodes (sgraph s) n) lbuf owner
                                    (pb_allocation (physical_buffers s ! p)))\<rparr>
                           else result))
               else Inl Undefined_behaviour))"

definition assign_allocations_visit ::
  "(datatype_t \<Rightarrow> nat) \<Rightarrow> scheduler \<Rightarrow> node_id \<Rightarrow> schedule_result \<Rightarrow> error + schedule_result" where
  "assign_allocations_visit element_bytes s n result =
     efold (assign_allocation element_bytes s n) (outputs (nodes (sgraph s) n)) result"

definition assign_allocations ::
  "nat \<Rightarrow> (datatype_t \<Rightarrow> nat) \<Rightarrow> scheduler \<Rightarrow> schedule_result \<Rightarrow> schedule_result outcome" where
  "assign_allocations fuel element_bytes s result =
     relay_ir_visit fuel (sgraph s) (sched_outputs s) (assign_allocations_visit element_bytes s) result"

subsection \<open>schedule\<close>

text \<open>
  \<open>keys_of\<close> is the order in which the unordered map \<^verbatim>\<open>logical_buffers_\<close>
  enumerates its entries.
\<close>

definition schedule ::
  "nat \<Rightarrow> (buffer_map \<Rightarrow> oc_id list) \<Rightarrow> ((nat \<times> physical_buffer) list \<Rightarrow> (nat \<times> physical_buffer) list)
     \<Rightarrow> (datatype_t \<Rightarrow> nat) \<Rightarrow> target \<Rightarrow> scheduler \<Rightarrow> (scheduler \<times> schedule_result) outcome" where
  "schedule fuel keys_of std_sort element_bytes allocators s0 =
     (let result = \<lparr>compute_sequence = [], allocations = Map.empty, max_usages = Map.empty\<rparr> in
      obind (make_logical_buffers fuel s0) (\<lambda>s1.
      obind (analyze_buffer_alias fuel s1) (\<lambda>s2.
      obind (fix_concat_indices fuel s2) (\<lambda>s3.
      obind (fix_lifetime (keys_of (logical_buffers s3)) s3) (\<lambda>s4.
      obind (generate_compute_sequence fuel s4 result) (\<lambda>result1.
      obind (Some (make_physical_buffers (keys_of (logical_buffers s4)) s4)) (\<lambda>s5.
      obind (Some (allocate_physical_buffers allocators std_sort s5 result1)) (\<lambda>(s6, result2).
      obind (assign_allocations fuel element_bytes s6 result2) (\<lambda>result3.
      Some (Inr (s6, result3)))))))))))"

section \<open>Predicates of the specification\<close>

text \<open>
  The graph is acyclic: some rank grows from every producer to its consumers. Section
  4.1 of the specification relies on it ("producer age < consumer age").
\<close>

definition dag :: "(node_id \<Rightarrow> nat) \<Rightarrow> graph \<Rightarrow> bool" where
  "dag rk g = (\<forall>n. \<forall>i \<in> set (inputs (nodes g n)). rk (producer g i) < rk n)"

text \<open>What a call of the traversal adds to the visited nodes and to the order.\<close>

definition extends :: "node_id list \<times> node_id list \<Rightarrow> node_id list \<times> node_id list \<Rightarrow> bool" where
  "extends s s' = (\<exists>new. snd s' = snd s @ new \<and> set (fst s') = set (fst s) \<union> set new
      \<and> distinct new \<and> set new \<inter> set (fst s) = {})"

text \<open>\<open>a\<close> stands in \<open>xs\<close> before the first \<open>b\<close>.\<close>

definition precedes :: "'a list \<Rightarrow> 'a \<Rightarrow> 'a \<Rightarrow> bool" where
  "precedes xs a b = (a \<in> set (takeWhile (\<lambda>x. x \<noteq> b) xs))"

text \<open>
  Every node of the sequence stands after the producers of its inputs that are in the
  sequence.
\<close>

definition topological :: "graph \<Rightarrow> node_id list \<Rightarrow> bool" where
  "topological g seq =
     list_all (\<lambda>n. list_all (\<lambda>i. producer g i \<in> set seq \<longrightarrow> precedes seq (producer g i) n)
                 (inputs (nodes g n))) seq"

text \<open>Every node of the order stands after all producers of its inputs.\<close>

definition closed_order :: "graph \<Rightarrow> node_id list \<Rightarrow> bool" where
  "closed_order g ord = (\<forall>n \<in> set ord. \<forall>i \<in> set (inputs (nodes g n)). precedes ord (producer g i) n)"

text \<open>The nodes the traversal reaches from the outputs.\<close>

inductive_set reachable :: "graph \<Rightarrow> node_id list \<Rightarrow> node_id set" for g :: graph and outs :: "node_id list" where
  root: "n \<in> set outs \<Longrightarrow> n \<in> reachable g outs"
| step: "n \<in> reachable g outs \<Longrightarrow> i \<in> set (inputs (nodes g n)) \<Longrightarrow> producer g i \<in> reachable g outs"

text \<open>
  The parent chains are well founded: every parent descriptor points at a buffer of the
  map, and some rank falls along it. Section 3 of the specification: the parent "is
  either absent or points to another logical buffer whose root chain terminates at a
  buffer with no parent".
\<close>

definition parent_ranked :: "(oc_id \<Rightarrow> nat) \<Rightarrow> buffer_map \<Rightarrow> bool" where
  "parent_ranked rk bufs =
     (\<forall>k b p. bufs k = Some b \<and> lb_parent b = Some p \<longrightarrow> bufs (pd_parent p) \<noteq> None \<and> rk (pd_parent p) < rk k)"

text \<open>
  \<open>top_descriptor bufs k d\<close>: \<open>d\<close> is the parent descriptor stored on the last buffer
  of the parent chain of \<open>k\<close> that has a parent, the one right below the root (\<open>k\<close>
  itself when its parent is a root).
\<close>

inductive top_descriptor :: "buffer_map \<Rightarrow> oc_id \<Rightarrow> sub_buffer_desc \<Rightarrow> bool" for bufs :: buffer_map where
  below_root: "bufs k = Some b \<Longrightarrow> lb_parent b = Some p \<Longrightarrow> bufs (pd_parent p) = Some pb \<Longrightarrow>
     lb_parent pb = None \<Longrightarrow> top_descriptor bufs k p"
| further: "bufs k = Some b \<Longrightarrow> lb_parent b = Some p \<Longrightarrow> top_descriptor bufs (pd_parent p) d \<Longrightarrow>
     top_descriptor bufs k d"

text \<open>\<open>alias_root bufs k r\<close>: the parent chain of \<open>k\<close> ends at \<open>r\<close>, which has no parent.\<close>

inductive alias_root :: "buffer_map \<Rightarrow> oc_id \<Rightarrow> oc_id \<Rightarrow> bool" for bufs :: buffer_map where
  itself: "bufs k = Some b \<Longrightarrow> lb_parent b = None \<Longrightarrow> alias_root bufs k k"
| parent: "bufs k = Some b \<Longrightarrow> lb_parent b = Some p \<Longrightarrow> alias_root bufs (pd_parent p) r \<Longrightarrow>
     alias_root bufs k r"

text \<open>Every parent descriptor points at a buffer that has no parent.\<close>

definition flat :: "buffer_map \<Rightarrow> bool" where
  "flat bufs = (\<forall>k b d. bufs k = Some b \<and> lb_parent b = Some d \<longrightarrow>
      (\<exists>r. bufs (pd_parent d) = Some r \<and> lb_parent r = None))"

text \<open>The parent descriptor of \<open>c\<close> points at \<open>r\<close>.\<close>

definition is_child :: "buffer_map \<Rightarrow> oc_id \<Rightarrow> oc_id \<Rightarrow> bool" where
  "is_child bufs r c =
     (case bufs c of None \<Rightarrow> False
      | Some b \<Rightarrow> (case lb_parent b of None \<Rightarrow> False | Some d \<Rightarrow> pd_parent d = r))"

text \<open>The birth and the end of the lifetime of the buffer of a connector.\<close>

definition birth_of :: "buffer_map \<Rightarrow> oc_id \<Rightarrow> nat" where
  "birth_of bufs k = birth (lb_lifetime (the (bufs k)))"

definition end_of :: "buffer_map \<Rightarrow> oc_id \<Rightarrow> nat" where
  "end_of bufs k = lifetime_end (lb_lifetime (the (bufs k)))"

text \<open>\<open>proper_ancestor bufs k a\<close>: \<open>a\<close> is on the parent chain of \<open>k\<close>, above \<open>k\<close>.\<close>

inductive proper_ancestor :: "buffer_map \<Rightarrow> oc_id \<Rightarrow> oc_id \<Rightarrow> bool" for bufs :: buffer_map where
  direct: "bufs k = Some b \<Longrightarrow> lb_parent b = Some p \<Longrightarrow> proper_ancestor bufs k (pd_parent p)"
| indirect: "bufs k = Some b \<Longrightarrow> lb_parent b = Some p \<Longrightarrow> proper_ancestor bufs (pd_parent p) a \<Longrightarrow>
     proper_ancestor bufs k a"

text \<open>The connector has a buffer, and the buffer has no parent.\<close>

definition is_root :: "buffer_map \<Rightarrow> oc_id \<Rightarrow> bool" where
  "is_root bufs k = (case bufs k of None \<Rightarrow> False | Some b \<Rightarrow> lb_parent b = None)"

text \<open>The buffer a logical buffer is bound to: the target of its parent descriptor, or itself.\<close>

definition root_key :: "logical_buffer \<Rightarrow> oc_id \<Rightarrow> oc_id" where
  "root_key b k = (case lb_parent b of Some d \<Rightarrow> pd_parent d | None \<Rightarrow> k)"

text \<open>The physical buffer constructed for the root \<open>k\<close> with the id \<open>i\<close>.\<close>

definition new_physical :: "buffer_map \<Rightarrow> nat \<times> oc_id \<Rightarrow> physical_buffer" where
  "new_physical bufs = (\<lambda>(i, k). \<lparr>pb_id = i, pb_owner = k, pb_lifetime = lb_lifetime (the (bufs k)),
      pb_allocation = \<lparr>ms_start = 0, ms_size = 0\<rparr>\<rparr>)"





text \<open>
  The concat rule in the words of section 4.2 of the specification: the axis is 0 or all
  dimensions before the axis in the input shapes equal one; every input buffer is neither
  input nor rdata and is not produced by a slice; fewer than two of the consumers of the
  concat are concats.
\<close>

definition concat_view_rule :: "graph \<Rightarrow> buffer_map \<Rightarrow> node_id \<Rightarrow> bool" where
  "concat_view_rule g bufs n =
     (let c = nodes g n in
      (axis c = 0
         \<or> list_all (\<lambda>i. list_all (\<lambda>dim. dim = 1) (take (axis c) (ic_shape (in_conns g i)))) (inputs c))
      \<and> list_all (\<lambda>i. memory_location_of bufs (connection (in_conns g i)) \<noteq> mem_input
                     \<and> memory_location_of bufs (connection (in_conns g i)) \<noteq> mem_rdata
                     \<and> runtime_opcode (nodes g (producer g i)) \<noteq> op_slice) (inputs c)
      \<and> length (filter (\<lambda>i. consumer_opcode g i = op_concat)
                  (connections (out_conns g (hd (outputs c))))) < 2)"

text \<open>
  A concat node as the IR builds it: it has inputs and an output, the axis is within the
  rank, and the input shapes agree before the axis (the inputs of a concatenation differ
  along the axis only).
\<close>

definition concat_well_formed :: "graph \<Rightarrow> node_id \<Rightarrow> bool" where
  "concat_well_formed g n =
     (let c = nodes g n in
      inputs c \<noteq> [] \<and> outputs c \<noteq> []
      \<and> axis c \<le> length (ic_shape (in_conns g (hd (inputs c))))
      \<and> list_all (\<lambda>i. take (axis c) (ic_shape (in_conns g i))
                        = take (axis c) (ic_shape (in_conns g (hd (inputs c))))) (inputs c))"

text \<open>
  Two states differ in nothing the concat rule reads: the same connectors, the same nodes up
  to their attributes, the same buffers up to tags that are neither input nor rdata.
\<close>

definition same_topology :: "scheduler \<Rightarrow> scheduler \<Rightarrow> bool" where
  "same_topology s s' =
     (in_conns (sgraph s') = in_conns (sgraph s) \<and> out_conns (sgraph s') = out_conns (sgraph s)
      \<and> (\<forall>m. nodes (sgraph s') m = (nodes (sgraph s) m)\<lparr>attributes := attributes (nodes (sgraph s') m)\<rparr>)
      \<and> (\<forall>k. (logical_buffers s' k = None \<longleftrightarrow> logical_buffers s k = None)
            \<and> (memory_location_of (logical_buffers s') k = mem_input
                 \<longleftrightarrow> memory_location_of (logical_buffers s) k = mem_input)
            \<and> (memory_location_of (logical_buffers s') k = mem_rdata
                 \<longleftrightarrow> memory_location_of (logical_buffers s) k = mem_rdata)))"


subsection \<open>Offsets inside chains of views\<close>












section \<open>Concrete graphs\<close>

text \<open>
  An output connector that records no consumer although an output node reads it: the
  one consumer releases a buffer that was born with \<open>used_count = 0\<close>.
\<close>

definition double_release_graph :: graph where
  "double_release_graph =
     \<lparr>nodes = (\<lambda>n. if n = 0
          then \<lparr>runtime_opcode = op_other 0, attributes = 1, inputs = [], outputs = [0],
                axis = 0, concat_dims = []\<rparr>
          else \<lparr>runtime_opcode = op_output_node, attributes = 1, inputs = [0], outputs = [],
                axis = 0, concat_dims = []\<rparr>),
      in_conns = (\<lambda>i. \<lparr>ic_owner = 1, ic_shape = [1], connection = 0\<rparr>),
      out_conns = (\<lambda>k. \<lparr>oc_owner = 0, oc_shape = [1], oc_type = 0, connections = []\<rparr>)\<rparr>"

definition double_release_scheduler :: scheduler where
  "double_release_scheduler =
     \<lparr>sgraph = double_release_graph, sched_outputs = [1], logical_buffers = Map.empty,
      physical_buffers = []\<rparr>"

definition double_release_recorder :: lifetime_recorder where
  "double_release_recorder =
     \<lparr>next_buffer_id = 1, cnt_age = 1,
      buffers = [0 \<mapsto> \<lparr>lb_id = 0, lb_owner = 0, lb_memory_location = mem_data,
        lb_lifetime = \<lparr>used_count = 0, birth = 0, age = 0\<rparr>, lb_parent = None, lb_physical = None\<rparr>]\<rparr>"

text \<open>
  Scenario S2 with the reshape feeding the graph output: node 0 produces a tensor of
  shape \<open>[2, 3]\<close> (connector 0), node 1 is the bitcast to \<open>[6]\<close> (connector 1) and
  node 2 is the output node. The logical buffers are the ones of the lifetime builder,
  with the tag of the bitcast's input left open.
\<close>

definition bitcast_graph :: graph where
  "bitcast_graph =
     \<lparr>nodes = (\<lambda>n. if n = 0
          then \<lparr>runtime_opcode = op_other 0, attributes = 1, inputs = [], outputs = [0],
                axis = 0, concat_dims = []\<rparr>
          else if n = 1
          then \<lparr>runtime_opcode = op_bitcast, attributes = 1, inputs = [0], outputs = [1],
                axis = 0, concat_dims = []\<rparr>
          else \<lparr>runtime_opcode = op_output_node, attributes = 1, inputs = [1], outputs = [],
                axis = 0, concat_dims = []\<rparr>),
      in_conns = (\<lambda>i. if i = 0 then \<lparr>ic_owner = 1, ic_shape = [2, 3], connection = 0\<rparr>
                        else \<lparr>ic_owner = 2, ic_shape = [6], connection = 1\<rparr>),
      out_conns = (\<lambda>k. if k = 0
          then \<lparr>oc_owner = 0, oc_shape = [2, 3], oc_type = 0, connections = [0]\<rparr>
          else \<lparr>oc_owner = 1, oc_shape = [6], oc_type = 0, connections = [1]\<rparr>)\<rparr>"

definition bitcast_in_buf :: "memory_location_t \<Rightarrow> logical_buffer" where
  "bitcast_in_buf l =
     \<lparr>lb_id = 0, lb_owner = 0, lb_memory_location = l,
      lb_lifetime = \<lparr>used_count = 0, birth = 0, age = 1\<rparr>, lb_parent = None, lb_physical = None\<rparr>"

definition bitcast_out_buf :: logical_buffer where
  "bitcast_out_buf =
     \<lparr>lb_id = 1, lb_owner = 1, lb_memory_location = mem_output,
      lb_lifetime = \<lparr>used_count = 0, birth = 1, age = 1\<rparr>, lb_parent = None, lb_physical = None\<rparr>"

definition bitcast_scheduler :: "memory_location_t \<Rightarrow> scheduler" where
  "bitcast_scheduler l =
     \<lparr>sgraph = bitcast_graph, sched_outputs = [2],
      logical_buffers = [0 \<mapsto> bitcast_in_buf l, 1 \<mapsto> bitcast_out_buf],
      physical_buffers = []\<rparr>"

text \<open>The same graph after the alias analyser demoted the bitcast to a view.\<close>

definition bitcast_view_scheduler :: scheduler where
  "bitcast_view_scheduler = (bitcast_scheduler mem_data)\<lparr>sgraph := clear_action 1 bitcast_graph\<rparr>"

text \<open>
  A parent chain of length two: buffer 2 lies in buffer 1 at offset \<open>[1]\<close>, buffer 1 lies
  in buffer 0 at offset \<open>[2]\<close>, and buffer 0 is the root.
\<close>

definition chain_buffers :: buffer_map where
  "chain_buffers =
     [0 \<mapsto> \<lparr>lb_id = 0, lb_owner = 0, lb_memory_location = mem_data,
              lb_lifetime = \<lparr>used_count = 0, birth = 3, age = 1\<rparr>,
              lb_parent = None, lb_physical = None\<rparr>,
      1 \<mapsto> \<lparr>lb_id = 1, lb_owner = 1, lb_memory_location = mem_data,
              lb_lifetime = \<lparr>used_count = 0, birth = 1, age = 2\<rparr>,
              lb_parent = Some \<lparr>pd_parent = 0, pd_begin = [2]\<rparr>, lb_physical = None\<rparr>,
      2 \<mapsto> \<lparr>lb_id = 2, lb_owner = 2, lb_memory_location = mem_data,
              lb_lifetime = \<lparr>used_count = 0, birth = 0, age = 1\<rparr>,
              lb_parent = Some \<lparr>pd_parent = 1, pd_begin = [1]\<rparr>, lb_physical = None\<rparr>]"

definition chain_scheduler :: scheduler where
  "chain_scheduler =
     \<lparr>sgraph = bitcast_graph, sched_outputs = [], logical_buffers = chain_buffers,
      physical_buffers = []\<rparr>"

text \<open>
  Scenario S3: nodes 0 and 1 produce \<open>a\<close> of shape \<open>[2, 4]\<close> and \<open>b\<close> of shape
  \<open>[3, 4]\<close> (connectors 0 and 1), node 2 concatenates them along axis 0 into connector 2
  of shape \<open>[5, 4]\<close>, and node 3 is the output node. The element type 0 stands for
  float32.
\<close>

definition concat_graph :: graph where
  "concat_graph =
     \<lparr>nodes = (\<lambda>n. if n = 0
          then \<lparr>runtime_opcode = op_other 0, attributes = 1, inputs = [], outputs = [0],
                axis = 0, concat_dims = []\<rparr>
          else if n = 1
          then \<lparr>runtime_opcode = op_other 0, attributes = 1, inputs = [], outputs = [1],
                axis = 0, concat_dims = []\<rparr>
          else if n = 2
          then \<lparr>runtime_opcode = op_concat, attributes = 1, inputs = [0, 1], outputs = [2],
                axis = 0, concat_dims = [2, 3]\<rparr>
          else \<lparr>runtime_opcode = op_output_node, attributes = 1, inputs = [2], outputs = [],
                axis = 0, concat_dims = []\<rparr>),
      in_conns = (\<lambda>i. if i = 0 then \<lparr>ic_owner = 2, ic_shape = [2, 4], connection = 0\<rparr>
                        else if i = 1 then \<lparr>ic_owner = 2, ic_shape = [3, 4], connection = 1\<rparr>
                        else \<lparr>ic_owner = 3, ic_shape = [5, 4], connection = 2\<rparr>),
      out_conns = (\<lambda>k. if k = 0
          then \<lparr>oc_owner = 0, oc_shape = [2, 4], oc_type = 0, connections = [0]\<rparr>
          else if k = 1
          then \<lparr>oc_owner = 1, oc_shape = [3, 4], oc_type = 0, connections = [1]\<rparr>
          else \<lparr>oc_owner = 2, oc_shape = [5, 4], oc_type = 0, connections = [2]\<rparr>)\<rparr>"

text \<open>The logical buffers of S3 as the lifetime builder leaves them.\<close>

definition concat_buffers :: buffer_map where
  "concat_buffers =
     [0 \<mapsto> \<lparr>lb_id = 0, lb_owner = 0, lb_memory_location = mem_data,
              lb_lifetime = \<lparr>used_count = 0, birth = 0, age = 3\<rparr>,
              lb_parent = None, lb_physical = None\<rparr>,
      1 \<mapsto> \<lparr>lb_id = 1, lb_owner = 1, lb_memory_location = mem_data,
              lb_lifetime = \<lparr>used_count = 0, birth = 1, age = 2\<rparr>,
              lb_parent = None, lb_physical = None\<rparr>,
      2 \<mapsto> \<lparr>lb_id = 2, lb_owner = 2, lb_memory_location = mem_output,
              lb_lifetime = \<lparr>used_count = 0, birth = 2, age = 2\<rparr>,
              lb_parent = None, lb_physical = None\<rparr>]"

text \<open>The same buffers after the concat became a view and its inputs got their parents.\<close>

definition concat_view_buffers :: buffer_map where
  "concat_view_buffers =
     [0 \<mapsto> \<lparr>lb_id = 0, lb_owner = 0, lb_memory_location = mem_data,
              lb_lifetime = \<lparr>used_count = 0, birth = 0, age = 3\<rparr>,
              lb_parent = Some \<lparr>pd_parent = 2, pd_begin = [0, 0]\<rparr>, lb_physical = None\<rparr>,
      1 \<mapsto> \<lparr>lb_id = 1, lb_owner = 1, lb_memory_location = mem_data,
              lb_lifetime = \<lparr>used_count = 0, birth = 1, age = 2\<rparr>,
              lb_parent = Some \<lparr>pd_parent = 2, pd_begin = [2, 0]\<rparr>, lb_physical = None\<rparr>,
      2 \<mapsto> \<lparr>lb_id = 2, lb_owner = 2, lb_memory_location = mem_output,
              lb_lifetime = \<lparr>used_count = 0, birth = 0, age = 4\<rparr>,
              lb_parent = None, lb_physical = None\<rparr>]"

definition concat_view_scheduler :: scheduler where
  "concat_view_scheduler =
     \<lparr>sgraph = clear_action 2 concat_graph, sched_outputs = [3],
      logical_buffers = concat_view_buffers, physical_buffers = []\<rparr>"


text \<open>S3 before the alias analyser, with the tag of the buffer of \<open>a\<close> left open (S4: rdata).\<close>

definition concat_scheduler :: "memory_location_t \<Rightarrow> scheduler" where
  "concat_scheduler l =
     \<lparr>sgraph = concat_graph, sched_outputs = [3],
      logical_buffers = concat_buffers(0 \<mapsto> (the (concat_buffers 0))\<lparr>lb_memory_location := l\<rparr>),
      physical_buffers = []\<rparr>"








section \<open>Basic facts\<close>

lemma efold_append:
  "efold f (xs @ ys) s = (case efold f xs s of Inl e \<Rightarrow> Inl e | Inr s' \<Rightarrow> efold f ys s')"
  by (induction xs arbitrary: s) (auto split: sum.splits)

lemma obind_raise: "obind (Some (Inl e)) f = Some (Inl e)"
  by (simp add: obind_def)

lemma obind_return: "obind (Some (Inr x)) f = f x"
  by (simp add: obind_def)

lemma not_action_clear: "\<not> is_action (nodes (clear_action n g) n)"
  by (simp add: is_action_def clear_action_def word_bw_assocs)

section \<open>The lifetime recorder\<close>

lemma double_release_order:
  "visit_order 2 (sgraph double_release_scheduler) (sched_outputs double_release_scheduler)
     = Some [0, 1]"
  by (simp add: visit_order_def double_release_scheduler_def double_release_graph_def
      numeral_2_eq_2 producer_def)

lemma double_release_visit0:
  "efold (make_logical_buffers_visit (sgraph double_release_scheduler)) [0]
     \<lparr>next_buffer_id = 0, cnt_age = 0, buffers = logical_buffers double_release_scheduler\<rparr>
   = Inr double_release_recorder"
  by (simp add: make_logical_buffers_visit_def double_release_scheduler_def double_release_graph_def
      allocate_def grow_age_def decide_memory_location_def is_alive_def double_release_recorder_def
      fun_eq_iff)

text \<open>
  C9. Releasing a buffer whose \<open>used_count\<close> is zero raises the error "Trying to free a
  released buffer"; releasing a buffer whose \<open>used_count\<close> is positive takes exactly one
  from \<open>used_count\<close>, changes nothing else and raises nothing. When the release of a dead
  buffer happens while the lifetime builder visits a node (\<open>n\<close>, after the nodes
  \<open>pre\<close> and after the releases for the inputs \<open>is1\<close> of \<open>n\<close>), the error is the
  outcome of the whole \<open>schedule\<close>: nothing catches it.
\<close>

theorem release_used_count:
  assumes b: "buffers lr conn = Some b"
  shows "release conn lr =
           (if used_count (lb_lifetime b) = 0 then Inl Trying_to_free_a_released_buffer
            else Inr (lr\<lparr>buffers := (buffers lr)(conn \<mapsto>
                   b\<lparr>lb_lifetime := (lb_lifetime b)\<lparr>used_count := used_count (lb_lifetime b) - 1\<rparr>\<rparr>)\<rparr>))
     \<and> (used_count (lb_lifetime b) = 0
          \<and> visit_order fuel (sgraph s) (sched_outputs s) = Some (pre @ n # post)
          \<and> efold (make_logical_buffers_visit (sgraph s)) pre
               \<lparr>next_buffer_id = 0, cnt_age = 0, buffers = logical_buffers s\<rparr> = Inr lr1
          \<and> inputs (nodes (sgraph s) n) = is1 @ i # is2
          \<and> efold (\<lambda>i. release (connection (in_conns (sgraph s) i))) is1
               (grow_age (fold (allocate (sgraph s)) (outputs (nodes (sgraph s) n)) lr1)) = Inr lr
          \<and> connection (in_conns (sgraph s) i) = conn
        \<longrightarrow> schedule fuel keys_of std_sort element_bytes allocators s
              = Some (Inl Trying_to_free_a_released_buffer))"
proof (intro conjI impI)
  show "release conn lr =
           (if used_count (lb_lifetime b) = 0 then Inl Trying_to_free_a_released_buffer
            else Inr (lr\<lparr>buffers := (buffers lr)(conn \<mapsto>
                   b\<lparr>lb_lifetime := (lb_lifetime b)\<lparr>used_count := used_count (lb_lifetime b) - 1\<rparr>\<rparr>)\<rparr>))"
    using b by (simp add: release_def is_alive_def)
next
  let ?g = "sgraph s"
  let ?T = "Trying_to_free_a_released_buffer"
  assume a: "used_count (lb_lifetime b) = 0
          \<and> visit_order fuel (sgraph s) (sched_outputs s) = Some (pre @ n # post)
          \<and> efold (make_logical_buffers_visit (sgraph s)) pre
               \<lparr>next_buffer_id = 0, cnt_age = 0, buffers = logical_buffers s\<rparr> = Inr lr1
          \<and> inputs (nodes (sgraph s) n) = is1 @ i # is2
          \<and> efold (\<lambda>i. release (connection (in_conns (sgraph s) i))) is1
               (grow_age (fold (allocate (sgraph s)) (outputs (nodes (sgraph s) n)) lr1)) = Inr lr
          \<and> connection (in_conns (sgraph s) i) = conn"
  have rel: "release conn lr = Inl ?T"
    using a b by (simp add: release_def is_alive_def)
  have "make_logical_buffers_visit ?g n lr1 = Inl ?T"
    using a rel by (simp add: make_logical_buffers_visit_def efold_append)
  then have "efold (make_logical_buffers_visit ?g) (pre @ n # post)
               \<lparr>next_buffer_id = 0, cnt_age = 0, buffers = logical_buffers s\<rparr> = Inl ?T"
    using a by (simp add: efold_append)
  then have "make_logical_buffers fuel s = Some (Inl ?T)"
    using a by (simp add: make_logical_buffers_def relay_ir_visit_def)
  then show "schedule fuel keys_of std_sort element_bytes allocators s = Some (Inl ?T)"
    by (simp add: schedule_def obind_raise)
qed

theorem release_used_count_witness:
  "buffers (grow_age double_release_recorder) 0 = Some (the (buffers double_release_recorder 0))
   \<and> used_count (lb_lifetime (the (buffers double_release_recorder 0))) = 0
   \<and> release 0 (grow_age double_release_recorder) = Inl Trying_to_free_a_released_buffer
   \<and> schedule 2 (\<lambda>m. []) id (\<lambda>t. 4) Map.empty double_release_scheduler
       = Some (Inl Trying_to_free_a_released_buffer)"
proof -
  have b: "buffers (grow_age double_release_recorder) 0 = Some (the (buffers double_release_recorder 0))"
    by (simp add: grow_age_def double_release_recorder_def is_alive_def)
  have u: "used_count (lb_lifetime (the (buffers double_release_recorder 0))) = 0"
    by (simp add: double_release_recorder_def)
  have i: "inputs (nodes (sgraph double_release_scheduler) 1) = [] @ 0 # []"
    and o: "outputs (nodes (sgraph double_release_scheduler) 1) = []"
    and c: "connection (in_conns (sgraph double_release_scheduler) 0) = 0"
    by (simp_all add: double_release_scheduler_def double_release_graph_def)
  show ?thesis
    using release_used_count [OF b, of 2 double_release_scheduler "[0]" 1 "[]" double_release_recorder
        "[]" 0 "[]" "\<lambda>m. []" id "\<lambda>t. 4" Map.empty]
      b u i o c double_release_order double_release_visit0
    by simp
qed

section \<open>The alias analyser\<close>

text \<open>
  C3. The visit of a bitcast node with input buffer \<open>in_buf\<close> and output buffer
  \<open>out_buf\<close>: when \<open>out_buf\<close> is tagged output and \<open>in_buf\<close> is tagged data, the tag of
  the input buffer becomes output (and stays as it is otherwise). Then, unless the output
  buffer is tagged output while the input buffer is tagged input or rdata, the parent of
  the output buffer is the input buffer with a begin of zeros (one for each dimension of
  the input) and the node no longer carries the action bit; in the excluded case the graph
  (so the attributes of the node) and the parent of the output buffer stay as they were.
  No other buffer changes.
\<close>

theorem bitcast_rule:
  assumes op: "runtime_opcode (nodes (sgraph s) n) = op_bitcast"
    and ins: "inputs (nodes (sgraph s) n) = i # is"
    and outs: "outputs (nodes (sgraph s) n) = out # os"
    and inb: "logical_buffers s (connection (in_conns (sgraph s) i)) = Some in_buf"
    and outb: "logical_buffers s out = Some out_buf"
  shows "\<exists>s'. alias_visit n s = Inr s' \<and>
    (let input = connection (in_conns (sgraph s) i);
         promote = (lb_memory_location out_buf = mem_output \<and> lb_memory_location in_buf = mem_data);
         must_copy = (lb_memory_location out_buf = mem_output
            \<and> (lb_memory_location in_buf = mem_input \<or> lb_memory_location in_buf = mem_rdata))
     in memory_location_of (logical_buffers s') input
          = (if promote then mem_output else lb_memory_location in_buf)
      \<and> (if must_copy
          then sgraph s' = sgraph s \<and> lb_parent (the (logical_buffers s' out)) = lb_parent out_buf
          else lb_parent (the (logical_buffers s' out))
              = Some \<lparr>pd_parent = input,
                      pd_begin = replicate (length (oc_shape (out_conns (sgraph s) input))) 0\<rparr>
            \<and> \<not> is_action (nodes (sgraph s') n))
      \<and> (\<forall>k. k \<noteq> input \<and> k \<noteq> out \<longrightarrow> logical_buffers s' k = logical_buffers s k))"
  using assms
  by (auto simp: alias_visit_def alias_bitcast_def Let_def memory_location_of_def
      set_memory_location_def set_parent_def not_action_clear)


lemma bitcast_scheduler_facts:
  "runtime_opcode (nodes (sgraph (bitcast_scheduler l)) 1) = op_bitcast"
  "inputs (nodes (sgraph (bitcast_scheduler l)) 1) = 0 # []"
  "outputs (nodes (sgraph (bitcast_scheduler l)) 1) = 1 # []"
  "logical_buffers (bitcast_scheduler l) (connection (in_conns (sgraph (bitcast_scheduler l)) 0)) = Some (bitcast_in_buf l)"
  "logical_buffers (bitcast_scheduler l) 1 = Some bitcast_out_buf"
  by (simp_all add: bitcast_scheduler_def bitcast_graph_def)

theorem bitcast_rule_witness:
  "(\<exists>s'. alias_visit 1 (bitcast_scheduler mem_data) = Inr s'
      \<and> memory_location_of (logical_buffers s') 0 = mem_output
      \<and> lb_parent (the (logical_buffers s' 1)) = Some \<lparr>pd_parent = 0, pd_begin = [0, 0]\<rparr>
      \<and> \<not> is_action (nodes (sgraph s') 1))
   \<and> (\<exists>s'. alias_visit 1 (bitcast_scheduler mem_rdata) = Inr s'
      \<and> memory_location_of (logical_buffers s') 0 = mem_rdata
      \<and> lb_parent (the (logical_buffers s' 1)) = None
      \<and> is_action (nodes (sgraph s') 1))"
proof -
  have g: "connection (in_conns (sgraph (bitcast_scheduler l)) 0) = 0"
    "oc_shape (out_conns (sgraph (bitcast_scheduler l)) 0) = [2, 3]"
    "is_action (nodes (sgraph (bitcast_scheduler l)) 1)" for l
    by (simp_all add: bitcast_scheduler_def bitcast_graph_def is_action_def node_attr_action_def)
  have t: "lb_memory_location bitcast_out_buf = mem_output" "lb_parent bitcast_out_buf = None"
    "lb_memory_location (bitcast_in_buf l) = l" for l
    by (simp_all add: bitcast_out_buf_def bitcast_in_buf_def)
  have A: "\<exists>s'. alias_visit 1 (bitcast_scheduler mem_data) = Inr s'
      \<and> memory_location_of (logical_buffers s') 0 = mem_output
      \<and> lb_parent (the (logical_buffers s' 1)) = Some \<lparr>pd_parent = 0, pd_begin = [0, 0]\<rparr>
      \<and> \<not> is_action (nodes (sgraph s') 1)"
    using bitcast_rule [OF bitcast_scheduler_facts(1-5), of mem_data]
    by (simp add: g t Let_def numeral_2_eq_2) blast
  have B: "\<exists>s'. alias_visit 1 (bitcast_scheduler mem_rdata) = Inr s'
      \<and> memory_location_of (logical_buffers s') 0 = mem_rdata
      \<and> lb_parent (the (logical_buffers s' 1)) = None
      \<and> is_action (nodes (sgraph s') 1)"
    using bitcast_rule [OF bitcast_scheduler_facts(1-5), of mem_rdata] g(3) [of mem_rdata]
    by (simp add: g(1,2) t Let_def numeral_2_eq_2) metis
  from A B show ?thesis by (rule conjI)
qed

section \<open>The graph visitor\<close>

lemma ofold_total:
  "(\<And>x s. x \<in> set xs \<Longrightarrow> \<exists>s'. f x s = Some s') \<Longrightarrow> \<exists>s'. ofold f xs s = Some s'"
proof (induction xs arbitrary: s)
  case Nil
  show ?case by simp
next
  case (Cons x xs)
  from Cons.prems [of x s] obtain s1 where s1: "f x s = Some s1" by auto
  from Cons.IH [of s1] Cons.prems obtain s2 where "ofold f xs s1 = Some s2" by auto
  with s1 show ?case by simp
qed

lemma visit_strategy_total:
  assumes "dag rk g"
  shows "rk n < fuel \<Longrightarrow> \<exists>s'. visit_strategy fuel g n s = Some s'"
proof (induction fuel arbitrary: n s)
  case 0
  then show ?case by simp
next
  case (Suc fuel)
  obtain visited order where s: "s = (visited, order)" by (cases s)
  show ?case
  proof (cases "n \<in> set visited")
    case True
    then show ?thesis by (simp add: s)
  next
    case False
    have "\<exists>s'. ofold (\<lambda>i. visit_strategy fuel g (producer g i)) (inputs (nodes g n))
                 (n # visited, order) = Some s'"
    proof (rule ofold_total)
      fix i s0
      assume "i \<in> set (inputs (nodes g n))"
      with assms have "rk (producer g i) < rk n" by (auto simp: dag_def)
      with Suc.prems have "rk (producer g i) < fuel" by simp
      then show "\<exists>s'. visit_strategy fuel g (producer g i) s0 = Some s'" by (rule Suc.IH)
    qed
    then show ?thesis using False by (auto simp: s)
  qed
qed

lemma extends_refl: "extends s s"
  by (simp add: extends_def)

lemma extends_trans: "extends s s1 \<Longrightarrow> extends s1 s2 \<Longrightarrow> extends s s2"
  unfolding extends_def
  apply (elim exE conjE)
  subgoal for new1 new2
    by (rule exI [of _ "new1 @ new2"]) auto
  done

lemma ofold_extends:
  "(\<And>x s s'. x \<in> set xs \<Longrightarrow> f x s = Some s' \<Longrightarrow> extends s s') \<Longrightarrow>
   ofold f xs s = Some s' \<Longrightarrow> extends s s'"
proof (induction xs arbitrary: s)
  case Nil
  then show ?case by (simp add: extends_refl)
next
  case (Cons x xs)
  from Cons.prems(2) obtain s1 where s1: "f x s = Some s1" and r: "ofold f xs s1 = Some s'"
    by (auto split: option.splits)
  have "extends s s1" using Cons.prems(1) [of x s s1] s1 by simp
  moreover have "extends s1 s'" using Cons.IH [OF _ r] Cons.prems(1) by (meson list.set_intros(2))
  ultimately show ?case by (rule extends_trans)
qed

lemma visit_strategy_extends:
  "visit_strategy fuel g n s = Some s' \<Longrightarrow> extends s s' \<and> n \<in> set (fst s')"
proof (induction fuel arbitrary: n s s')
  case 0
  then show ?case by simp
next
  case (Suc fuel)
  obtain visited order where s: "s = (visited, order)" by (cases s)
  show ?case
  proof (cases "n \<in> set visited")
    case True
    with Suc.prems show ?thesis by (auto simp: s extends_refl)
  next
    case False
    with Suc.prems obtain visited' order' where
      r: "ofold (\<lambda>i. visit_strategy fuel g (producer g i)) (inputs (nodes g n)) (n # visited, order)
            = Some (visited', order')"
      and s': "s' = (visited', order' @ [n])"
      by (auto simp: s split: option.splits)
    have "extends (n # visited, order) (visited', order')"
      using r by (rule ofold_extends [rotated]) (use Suc.IH in blast)
    then obtain new where new: "order' = order @ new" "set visited' = set (n # visited) \<union> set new"
      "distinct new" "set new \<inter> set (n # visited) = {}"
      by (auto simp: extends_def)
    have "extends s s'"
      unfolding extends_def s s'
      by (rule exI [of _ "new @ [n]"]) (use new False in auto)
    moreover have "n \<in> set (fst s')" using new by (simp add: s')
    ultimately show ?thesis by simp
  qed
qed

lemma visit_order_distinct:
  assumes "visit_order fuel g outs = Some order"
  shows "distinct order"
proof -
  from assms obtain visited where r: "ofold (visit_strategy fuel g) outs ([], []) = Some (visited, order)"
    by (auto simp: visit_order_def)
  have "extends ([], []) (visited, order)"
    using r by (rule ofold_extends [rotated]) (use visit_strategy_extends in blast)
  then show ?thesis by (auto simp: extends_def)
qed

lemma takeWhile_neq_snoc: "n \<notin> set xs \<Longrightarrow> takeWhile (\<lambda>x. x \<noteq> n) (xs @ [n]) = xs"
  by (induction xs) auto

lemma takeWhile_neq_append: "x \<in> set xs \<Longrightarrow> takeWhile (\<lambda>y. y \<noteq> x) (xs @ zs) = takeWhile (\<lambda>y. y \<noteq> x) xs"
  by (induction xs) auto

lemma closed_order_snoc:
  assumes "closed_order g ord" "n \<notin> set ord" "\<forall>i \<in> set (inputs (nodes g n)). producer g i \<in> set ord"
  shows "closed_order g (ord @ [n])"
  using assms by (auto simp: closed_order_def precedes_def takeWhile_neq_snoc takeWhile_neq_append)

lemma visit_inputs_closed:
  assumes step: "\<And>i vis ord vis' ord'. i \<in> set js \<Longrightarrow>
      visit_strategy fuel g (producer g i) (vis, ord) = Some (vis', ord') \<Longrightarrow>
      closed_order g ord \<Longrightarrow> set ord \<subseteq> set vis \<Longrightarrow>
      (\<forall>m \<in> set vis - set ord. rk (producer g i) < rk m) \<Longrightarrow>
      closed_order g ord' \<and> set ord' \<subseteq> set vis' \<and> set vis' - set ord' = set vis - set ord
        \<and> producer g i \<in> set ord'"
    and run: "ofold (\<lambda>i. visit_strategy fuel g (producer g i)) js (vis, ord) = Some (vis', ord')"
    and pre: "closed_order g ord" "set ord \<subseteq> set vis"
      "\<forall>i \<in> set js. \<forall>m \<in> set vis - set ord. rk (producer g i) < rk m"
  shows "closed_order g ord' \<and> set ord' \<subseteq> set vis' \<and> set vis' - set ord' = set vis - set ord
        \<and> (\<forall>i \<in> set js. producer g i \<in> set ord') \<and> set ord \<subseteq> set ord'"
  using step run pre
proof (induction js arbitrary: vis ord)
  case Nil
  then show ?case by simp
next
  case (Cons j js)
  from Cons.prems(2) obtain vis1 ord1 where
    c1: "visit_strategy fuel g (producer g j) (vis, ord) = Some (vis1, ord1)"
    and r: "ofold (\<lambda>i. visit_strategy fuel g (producer g i)) js (vis1, ord1) = Some (vis', ord')"
    by (auto split: option.splits)
  have p1: "closed_order g ord1 \<and> set ord1 \<subseteq> set vis1 \<and> set vis1 - set ord1 = set vis - set ord
        \<and> producer g j \<in> set ord1"
    using Cons.prems(1) [of j vis ord vis1 ord1] c1 Cons.prems(3,4,5) by simp
  have e1: "set ord \<subseteq> set ord1"
    using visit_strategy_extends [OF c1] by (auto simp: extends_def)
  have "closed_order g ord' \<and> set ord' \<subseteq> set vis' \<and> set vis' - set ord' = set vis1 - set ord1
        \<and> (\<forall>i \<in> set js. producer g i \<in> set ord') \<and> set ord1 \<subseteq> set ord'"
  proof (rule Cons.IH [OF _ r])
    show "closed_order g ord1" "set ord1 \<subseteq> set vis1" using p1 by simp_all
    show "\<forall>i \<in> set js. \<forall>m \<in> set vis1 - set ord1. rk (producer g i) < rk m"
      using p1 Cons.prems(5) by simp
  next
    fix i vis ord vis' ord'
    assume "i \<in> set js" "visit_strategy fuel g (producer g i) (vis, ord) = Some (vis', ord')"
      "closed_order g ord" "set ord \<subseteq> set vis" "\<forall>m \<in> set vis - set ord. rk (producer g i) < rk m"
    then show "closed_order g ord' \<and> set ord' \<subseteq> set vis' \<and> set vis' - set ord' = set vis - set ord
        \<and> producer g i \<in> set ord'"
      using Cons.prems(1) [of i vis ord vis' ord'] by simp
  qed
  with p1 e1 show ?case by auto
qed

lemma visit_strategy_closed:
  assumes "dag rk g"
  shows "visit_strategy fuel g n (vis, ord) = Some (vis', ord') \<Longrightarrow>
      closed_order g ord \<Longrightarrow> set ord \<subseteq> set vis \<Longrightarrow>
      (\<forall>m \<in> set vis - set ord. rk n < rk m) \<Longrightarrow>
      closed_order g ord' \<and> set ord' \<subseteq> set vis' \<and> set vis' - set ord' = set vis - set ord
        \<and> n \<in> set ord'"
proof (induction fuel arbitrary: n vis ord vis' ord')
  case 0
  then show ?case by simp
next
  case (Suc fuel)
  show ?case
  proof (cases "n \<in> set vis")
    case True
    then have "n \<in> set ord" using Suc.prems(4) by auto
    with True Suc.prems show ?thesis by auto
  next
    case False
    with Suc.prems(1) obtain ord1 where
      r: "ofold (\<lambda>i. visit_strategy fuel g (producer g i)) (inputs (nodes g n)) (n # vis, ord)
            = Some (vis', ord1)"
      and o: "ord' = ord1 @ [n]"
      by (auto split: option.splits)
    have rk: "\<forall>i \<in> set (inputs (nodes g n)). \<forall>m \<in> set (n # vis) - set ord. rk (producer g i) < rk m"
    proof (intro ballI)
      fix i m
      assume i: "i \<in> set (inputs (nodes g n))" and m: "m \<in> set (n # vis) - set ord"
      from assms i have lt: "rk (producer g i) < rk n" by (auto simp: dag_def)
      show "rk (producer g i) < rk m"
      proof (cases "m = n")
        case True
        with lt show ?thesis by simp
      next
        case False
        with m have "m \<in> set vis - set ord" by auto
        with Suc.prems(4) have "rk n < rk m" by blast
        with lt show ?thesis by simp
      qed
    qed
    have q: "closed_order g ord1 \<and> set ord1 \<subseteq> set vis' \<and> set vis' - set ord1 = set (n # vis) - set ord
        \<and> (\<forall>i \<in> set (inputs (nodes g n)). producer g i \<in> set ord1) \<and> set ord \<subseteq> set ord1"
    proof (rule visit_inputs_closed [OF _ r _ _ rk])
      show "closed_order g ord" by (rule Suc.prems(2))
      show "set ord \<subseteq> set (n # vis)" using Suc.prems(3) by auto
    next
      fix i vis ord vis' ord'
      assume "visit_strategy fuel g (producer g i) (vis, ord) = Some (vis', ord')"
        "closed_order g ord" "set ord \<subseteq> set vis" "\<forall>m \<in> set vis - set ord. rk (producer g i) < rk m"
      then show "closed_order g ord' \<and> set ord' \<subseteq> set vis' \<and> set vis' - set ord' = set vis - set ord
        \<and> producer g i \<in> set ord'"
        by (rule Suc.IH)
    qed
    have nin: "n \<notin> set ord" using False Suc.prems(3) by auto
    have n1: "n \<notin> set ord1" and nv: "n \<in> set vis'" using q nin by auto
    have "closed_order g ord'"
      unfolding o using q n1 by (intro closed_order_snoc) auto
    moreover have "set ord' \<subseteq> set vis'" using q nv by (auto simp: o)
    moreover have "set vis' - set ord' = set vis - set ord"
      using q False nin by (auto simp: o)
    ultimately show ?thesis by (simp add: o)
  qed
qed

lemma visit_order_closed:
  assumes "dag rk g" "visit_order fuel g outs = Some order"
  shows "closed_order g order"
proof -
  from assms(2) obtain visited where
    r: "ofold (visit_strategy fuel g) outs ([], []) = Some (visited, order)"
    by (auto simp: visit_order_def)
  have "ofold (visit_strategy fuel g) xs (vis, ord) = Some (vis', ord') \<Longrightarrow>
        closed_order g ord \<Longrightarrow> set vis = set ord \<Longrightarrow> closed_order g ord' \<and> set vis' = set ord'"
    for xs vis ord vis' ord'
  proof (induction xs arbitrary: vis ord)
    case Nil
    then show ?case by simp
  next
    case (Cons x xs)
    from Cons.prems(1) obtain vis1 ord1 where
      c1: "visit_strategy fuel g x (vis, ord) = Some (vis1, ord1)"
      and r1: "ofold (visit_strategy fuel g) xs (vis1, ord1) = Some (vis', ord')"
      by (auto split: option.splits)
    have "closed_order g ord1 \<and> set ord1 \<subseteq> set vis1 \<and> set vis1 - set ord1 = set vis - set ord
        \<and> x \<in> set ord1"
      using visit_strategy_closed [OF assms(1) c1] Cons.prems(2,3) by simp
    then have "closed_order g ord1" "set vis1 = set ord1" using Cons.prems(3) by auto
    then show ?case using Cons.IH [OF r1] by simp
  qed
  from this [OF r] show ?thesis by (simp add: closed_order_def)
qed

lemma ofold_subset:
  assumes "\<And>x s s'. x \<in> set xs \<Longrightarrow> f x s = Some s' \<Longrightarrow> set (fst s) \<subseteq> R \<Longrightarrow> set (fst s') \<subseteq> R"
    and "ofold f xs s = Some s'" "set (fst s) \<subseteq> R"
  shows "set (fst s') \<subseteq> R"
  using assms
proof (induction xs arbitrary: s)
  case Nil
  then show ?case by simp
next
  case (Cons x xs)
  from Cons.prems(2) obtain s1 where s1: "f x s = Some s1" and r: "ofold f xs s1 = Some s'"
    by (auto split: option.splits)
  have "set (fst s1) \<subseteq> R" using Cons.prems(1) [of x s s1] s1 Cons.prems(3) by simp
  then show ?case using Cons.IH [OF _ r] Cons.prems(1) by (meson list.set_intros(2))
qed

lemma visit_strategy_reachable:
  "visit_strategy fuel g n s = Some s' \<Longrightarrow> n \<in> reachable g outs \<Longrightarrow>
   set (fst s) \<subseteq> reachable g outs \<Longrightarrow> set (fst s') \<subseteq> reachable g outs"
proof (induction fuel arbitrary: n s s')
  case 0
  then show ?case by simp
next
  case (Suc fuel)
  obtain visited order where s: "s = (visited, order)" by (cases s)
  show ?case
  proof (cases "n \<in> set visited")
    case True
    with Suc.prems show ?thesis by (auto simp: s)
  next
    case False
    with Suc.prems(1) obtain visited' order' where
      r: "ofold (\<lambda>i. visit_strategy fuel g (producer g i)) (inputs (nodes g n)) (n # visited, order)
            = Some (visited', order')"
      and s': "s' = (visited', order' @ [n])"
      by (auto simp: s split: option.splits)
    have "set (fst (visited', order')) \<subseteq> reachable g outs"
    proof (rule ofold_subset [OF _ r])
      show "set (fst (n # visited, order)) \<subseteq> reachable g outs"
        using Suc.prems(2,3) by (simp add: s)
    next
      fix i s0 s1
      assume "i \<in> set (inputs (nodes g n))" "visit_strategy fuel g (producer g i) s0 = Some s1"
        "set (fst s0) \<subseteq> reachable g outs"
      then show "set (fst s1) \<subseteq> reachable g outs"
        using Suc.IH [of "producer g i" s0 s1] reachable.step [OF Suc.prems(2)] by simp
    qed
    then show ?thesis by (simp add: s')
  qed
qed

lemma visit_order_reachable:
  assumes "dag rk g" "visit_order fuel g outs = Some order"
  shows "set order = reachable g outs"
proof -
  from assms(2) obtain visited where
    r: "ofold (visit_strategy fuel g) outs ([], []) = Some (visited, order)"
    by (auto simp: visit_order_def)
  have ext: "extends ([], []) (visited, order)"
    using r by (rule ofold_extends [rotated]) (use visit_strategy_extends in blast)
  then have vo: "set visited = set order" by (auto simp: extends_def)
  have "set (fst (visited, order)) \<subseteq> reachable g outs"
  proof (rule ofold_subset [OF _ r])
    fix x s0 s1
    assume "x \<in> set outs" "visit_strategy fuel g x s0 = Some s1" "set (fst s0) \<subseteq> reachable g outs"
    then show "set (fst s1) \<subseteq> reachable g outs"
      using visit_strategy_reachable [of fuel g x s0 s1 outs] reachable.root by simp
  qed simp
  then have sub: "set order \<subseteq> reachable g outs" using vo by simp
  have roots: "set xs \<subseteq> set (fst s')" if "ofold (visit_strategy fuel g) xs s0 = Some s'" for xs s0 s'
    using that
  proof (induction xs arbitrary: s0)
    case Nil
    then show ?case by simp
  next
    case (Cons x xs)
    from Cons.prems obtain s1 where s1: "visit_strategy fuel g x s0 = Some s1"
      and r1: "ofold (visit_strategy fuel g) xs s1 = Some s'"
      by (auto split: option.splits)
    have "x \<in> set (fst s1)" using visit_strategy_extends [OF s1] by simp
    moreover have "extends s1 s'"
      using r1 by (rule ofold_extends [rotated]) (use visit_strategy_extends in blast)
    ultimately have "x \<in> set (fst s')" by (auto simp: extends_def)
    with Cons.IH [OF r1] show ?case by simp
  qed
  have outs: "set outs \<subseteq> set order" using roots [OF r] vo by simp
  have cl: "closed_order g order" by (rule visit_order_closed [OF assms])
  have "n \<in> set order" if "n \<in> reachable g outs" for n
    using that
  proof induction
    case (root n)
    with outs show ?case by auto
  next
    case (step n i)
    with cl have "precedes order (producer g i) n" by (auto simp: closed_order_def)
    then show ?case by (auto simp: precedes_def dest: set_takeWhileD)
  qed
  with sub show ?thesis by auto
qed

lemma visit_order_total:
  assumes "dag rk g" "\<forall>n \<in> set outs. rk n < fuel"
  shows "\<exists>order. visit_order fuel g outs = Some order"
proof -
  have "\<exists>s'. ofold (visit_strategy fuel g) outs ([], []) = Some s'"
    by (rule ofold_total) (use assms visit_strategy_total in blast)
  then show ?thesis by (auto simp: visit_order_def)
qed

lemma precedes_filter:
  "precedes xs a b \<Longrightarrow> P a \<Longrightarrow> precedes (filter P xs) a b"
  unfolding precedes_def by (induction xs) (auto split: if_splits)

lemma efold_compute_sequence:
  "efold (compute_sequence_visit g) order result
     = Inr (result\<lparr>compute_sequence := compute_sequence result @ filter (\<lambda>n. is_action (nodes g n)) order\<rparr>)"
  by (induction order arbitrary: result) (simp_all add: compute_sequence_visit_def)

text \<open>
  C7. On an acyclic graph, with fuel for the depth of the traversal,
  \<open>generate_compute_sequence\<close> returns, and the sequence it emits holds exactly the
  nodes reached from the outputs whose action bit is set (a node whose bit the alias
  analyser cleared is absent), each once, every one after the producers of its inputs
  that are in the sequence too.
\<close>

theorem compute_sequence_fidelity:
  assumes acyclic: "dag rk (sgraph s)"
    and fuel: "\<forall>n \<in> set (sched_outputs s). rk n < fuel"
    and empty: "compute_sequence result = []"
  shows "\<exists>result'. generate_compute_sequence fuel s result = Some (Inr result')
    \<and> set (compute_sequence result')
        = {n \<in> reachable (sgraph s) (sched_outputs s). is_action (nodes (sgraph s) n)}
    \<and> distinct (compute_sequence result')
    \<and> topological (sgraph s) (compute_sequence result')"
proof -
  let ?g = "sgraph s"
  let ?act = "\<lambda>n. is_action (nodes ?g n)"
  from visit_order_total [OF acyclic fuel] obtain order where
    order: "visit_order fuel ?g (sched_outputs s) = Some order" by blast
  let ?r = "result\<lparr>compute_sequence := filter ?act order\<rparr>"
  have run: "generate_compute_sequence fuel s result = Some (Inr ?r)"
    by (simp add: generate_compute_sequence_def relay_ir_visit_def order efold_compute_sequence empty)
  have set_eq: "set order = reachable ?g (sched_outputs s)"
    by (rule visit_order_reachable [OF acyclic order])
  have dist: "distinct order" by (rule visit_order_distinct [OF order])
  have cl: "closed_order ?g order" by (rule visit_order_closed [OF acyclic order])
  have topo: "topological ?g (filter ?act order)"
    unfolding topological_def list_all_iff
  proof (intro ballI impI)
    fix n i
    assume n: "n \<in> set (filter ?act order)" and i: "i \<in> set (inputs (nodes ?g n))"
      and p: "producer ?g i \<in> set (filter ?act order)"
    from n i cl have "precedes order (producer ?g i) n" by (auto simp: closed_order_def)
    then show "precedes (filter ?act order) (producer ?g i) n"
      using p by (intro precedes_filter) auto
  qed
  show ?thesis
    using run set_eq dist topo by (intro exI [of _ ?r]) auto
qed

lemma bitcast_view_dag: "dag (\<lambda>n. n) (sgraph bitcast_view_scheduler)"
  by (auto simp: dag_def bitcast_view_scheduler_def bitcast_scheduler_def bitcast_graph_def
      clear_action_def producer_def split: if_splits)

theorem compute_sequence_fidelity_witness:
  "dag (\<lambda>n. n) (sgraph bitcast_view_scheduler)
   \<and> list_all (\<lambda>n. n < 3) (sched_outputs bitcast_view_scheduler)
   \<and> (\<exists>result'. generate_compute_sequence 3 bitcast_view_scheduler
          \<lparr>compute_sequence = [], allocations = Map.empty, max_usages = Map.empty\<rparr> = Some (Inr result')
        \<and> set (compute_sequence result')
            = {n \<in> reachable (sgraph bitcast_view_scheduler) (sched_outputs bitcast_view_scheduler).
                 is_action (nodes (sgraph bitcast_view_scheduler) n)}
        \<and> distinct (compute_sequence result')
        \<and> topological (sgraph bitcast_view_scheduler) (compute_sequence result'))"
proof -
  have f: "\<forall>n \<in> set (sched_outputs bitcast_view_scheduler). n < 3"
    by (simp add: bitcast_view_scheduler_def bitcast_scheduler_def)
  from compute_sequence_fidelity [OF bitcast_view_dag f, of
      "\<lparr>compute_sequence = [], allocations = Map.empty, max_usages = Map.empty\<rparr>"]
  show ?thesis using bitcast_view_dag f by (simp add: list_all_iff)
qed

lemma bitcast_view_sequence:
  "generate_compute_sequence 3 bitcast_view_scheduler
          \<lparr>compute_sequence = [], allocations = Map.empty, max_usages = Map.empty\<rparr>
   = Some (Inr \<lparr>compute_sequence = [0, 2], allocations = Map.empty, max_usages = Map.empty\<rparr>)"
  by (simp add: generate_compute_sequence_def relay_ir_visit_def visit_order_def
     bitcast_view_scheduler_def bitcast_scheduler_def bitcast_graph_def clear_action_def producer_def
     numeral_3_eq_3 compute_sequence_visit_def is_action_def node_attr_action_def)

section \<open>The concat rule of the alias analyser\<close>

lemma same_topology_refl: "same_topology s s"
  by (simp add: same_topology_def)

lemma same_topology_trans: "same_topology s s1 \<Longrightarrow> same_topology s1 s2 \<Longrightarrow> same_topology s s2"
  unfolding same_topology_def
  apply (intro conjI allI)
       apply simp
      apply simp
     apply (metis (no_types, lifting) node.surjective node.update_convs(2))
    apply simp
   apply simp
  apply simp
  done

lemma clear_action_nodes:
  "nodes (clear_action n g) m = (nodes g m)\<lparr>attributes := attributes (nodes (clear_action n g) m)\<rparr>"
  "in_conns (clear_action n g) = in_conns g" "out_conns (clear_action n g) = out_conns g"
  "m \<noteq> n \<Longrightarrow> nodes (clear_action n g) m = nodes g m"
  by (simp_all add: clear_action_def)

lemma alias_bitcast_same_topology:
  "alias_bitcast n s = Inr s' \<Longrightarrow>
     same_topology s s' \<and> (\<forall>m. m \<noteq> n \<longrightarrow> nodes (sgraph s') m = nodes (sgraph s) m)"
  by (auto simp: alias_bitcast_def Let_def same_topology_def clear_action_def memory_location_of_def
      set_memory_location_def set_parent_def split: list.splits if_splits)

lemma alias_concat_result:
  "alias_concat n s = Inr s' \<Longrightarrow> s' = s \<or> s' = s\<lparr>sgraph := clear_action n (sgraph s)\<rparr>"
  by (auto simp: alias_concat_def Let_def split: list.splits sum.splits bool.splits if_splits)

lemma alias_concat_same_topology:
  "alias_concat n s = Inr s' \<Longrightarrow>
     same_topology s s' \<and> (\<forall>m. m \<noteq> n \<longrightarrow> nodes (sgraph s') m = nodes (sgraph s) m)"
  by (drule alias_concat_result) (auto simp: same_topology_def clear_action_def)

lemma alias_visit_same_topology:
  "alias_visit n s = Inr s' \<Longrightarrow>
     same_topology s s' \<and> (\<forall>m. m \<noteq> n \<longrightarrow> nodes (sgraph s') m = nodes (sgraph s) m)"
  by (auto simp: alias_visit_def same_topology_refl split: if_splits
      dest: alias_bitcast_same_topology alias_concat_same_topology)

lemma efold_alias_visit_same_topology:
  "efold alias_visit order s = Inr s' \<Longrightarrow>
     same_topology s s' \<and> (\<forall>m. m \<notin> set order \<longrightarrow> nodes (sgraph s') m = nodes (sgraph s) m)"
proof (induction order arbitrary: s)
  case Nil
  then show ?case by (simp add: same_topology_refl)
next
  case (Cons n order)
  from Cons.prems obtain s1 where s1: "alias_visit n s = Inr s1" and r: "efold alias_visit order s1 = Inr s'"
    by (auto split: sum.splits)
  from alias_visit_same_topology [OF s1] Cons.IH [OF r] show ?case
    by (auto intro: same_topology_trans)
qed

lemma same_topology_fields:
  assumes "same_topology s s'"
  shows "inputs (nodes (sgraph s') m) = inputs (nodes (sgraph s) m)"
    "outputs (nodes (sgraph s') m) = outputs (nodes (sgraph s) m)"
    "axis (nodes (sgraph s') m) = axis (nodes (sgraph s) m)"
    "runtime_opcode (nodes (sgraph s') m) = runtime_opcode (nodes (sgraph s) m)"
    "producer (sgraph s') i = producer (sgraph s) i"
    "consumer_opcode (sgraph s') i = consumer_opcode (sgraph s) i"
proof -
  from assms have n: "nodes (sgraph s') m = (nodes (sgraph s) m)\<lparr>attributes := attributes (nodes (sgraph s') m)\<rparr>"
    for m by (simp add: same_topology_def)
  from assms have c: "in_conns (sgraph s') = in_conns (sgraph s)" "out_conns (sgraph s') = out_conns (sgraph s)"
    by (simp_all add: same_topology_def)
  show "inputs (nodes (sgraph s') m) = inputs (nodes (sgraph s) m)" by (subst n) simp
  show "outputs (nodes (sgraph s') m) = outputs (nodes (sgraph s) m)" by (subst n) simp
  show "axis (nodes (sgraph s') m) = axis (nodes (sgraph s) m)" by (subst n) simp
  show o: "runtime_opcode (nodes (sgraph s') m) = runtime_opcode (nodes (sgraph s) m)" for m
    by (subst n) simp
  show "producer (sgraph s') i = producer (sgraph s) i" by (simp add: producer_def c)
  show "consumer_opcode (sgraph s') i = consumer_opcode (sgraph s) i" by (simp add: consumer_opcode_def c o)
qed

lemma same_topology_rule:
  assumes "same_topology s s'"
  shows "concat_view_rule (sgraph s') (logical_buffers s') n = concat_view_rule (sgraph s) (logical_buffers s) n"
    and "concat_well_formed (sgraph s') n = concat_well_formed (sgraph s) n"
proof -
  from assms have c: "in_conns (sgraph s') = in_conns (sgraph s)" "out_conns (sgraph s') = out_conns (sgraph s)"
    by (simp_all add: same_topology_def)
  from assms have t: "(memory_location_of (logical_buffers s') k = mem_input)
        = (memory_location_of (logical_buffers s) k = mem_input)"
      "(memory_location_of (logical_buffers s') k = mem_rdata)
        = (memory_location_of (logical_buffers s) k = mem_rdata)" for k
    by (simp_all add: same_topology_def)
  show "concat_view_rule (sgraph s') (logical_buffers s') n = concat_view_rule (sgraph s) (logical_buffers s) n"
    by (simp add: concat_view_rule_def Let_def same_topology_fields [OF assms] c t)
  show "concat_well_formed (sgraph s') n = concat_well_formed (sgraph s) n"
    by (simp add: concat_well_formed_def Let_def same_topology_fields [OF assms] c)
qed

lemma concat_inputs_exclusive_Inr:
  "concat_inputs_exclusive g bufs js = Inr b \<Longrightarrow>
     b = list_all (\<lambda>i. memory_location_of bufs (connection (in_conns g i)) \<noteq> mem_input
                     \<and> memory_location_of bufs (connection (in_conns g i)) \<noteq> mem_rdata
                     \<and> runtime_opcode (nodes g (producer g i)) \<noteq> op_slice) js"
  by (induction js) (auto simp: memory_location_of_def split: option.splits if_splits)

lemma concat_is_simple_Inr:
  assumes "concat_well_formed g n"
  shows "concat_is_simple g (nodes g n)
     = Inr (axis (nodes g n) = 0
         \<or> list_all (\<lambda>i. list_all (\<lambda>dim. dim = 1) (take (axis (nodes g n)) (ic_shape (in_conns g i))))
              (inputs (nodes g n)))"
proof -
  let ?c = "nodes g n"
  from assms obtain i js where ins: "inputs ?c = i # js"
    by (cases "inputs ?c") (auto simp: concat_well_formed_def Let_def)
  from assms ins have le: "axis ?c \<le> length (ic_shape (in_conns g i))"
    and agree: "\<forall>j \<in> set (i # js). take (axis ?c) (ic_shape (in_conns g j)) = take (axis ?c) (ic_shape (in_conns g i))"
    by (auto simp: concat_well_formed_def Let_def list_all_iff)
  have "list_all (\<lambda>j. list_all (\<lambda>dim. dim = 1) (take (axis ?c) (ic_shape (in_conns g j)))) (i # js)
      = list_all (\<lambda>dim. dim = 1) (take (axis ?c) (ic_shape (in_conns g i)))"
    using agree by (auto simp: list_all_iff)
  then show ?thesis
    using le by (simp add: concat_is_simple_def ins)
qed

lemma alias_concat_rule:
  assumes run: "alias_concat n s = Inr s'"
    and wf: "concat_well_formed (sgraph s) n"
    and act: "is_action (nodes (sgraph s) n)"
  shows "\<not> is_action (nodes (sgraph s') n) \<longleftrightarrow> concat_view_rule (sgraph s) (logical_buffers s) n"
proof -
  let ?g = "sgraph s"
  let ?c = "nodes ?g n"
  from wf obtain out os where outs: "outputs ?c = out # os"
    by (cases "outputs ?c") (auto simp: concat_well_formed_def Let_def)
  let ?simple = "axis ?c = 0
         \<or> list_all (\<lambda>i. list_all (\<lambda>dim. dim = 1) (take (axis ?c) (ic_shape (in_conns ?g i)))) (inputs ?c)"
  let ?excl = "list_all (\<lambda>i. memory_location_of (logical_buffers s) (connection (in_conns ?g i)) \<noteq> mem_input
                     \<and> memory_location_of (logical_buffers s) (connection (in_conns ?g i)) \<noteq> mem_rdata
                     \<and> runtime_opcode (nodes ?g (producer ?g i)) \<noteq> op_slice) (inputs ?c)"
  let ?few = "concat_consumers ?g (connections (out_conns ?g out)) < 2"
  have rule: "concat_view_rule ?g (logical_buffers s) n \<longleftrightarrow> ?simple \<and> ?excl \<and> ?few"
    by (simp add: concat_view_rule_def Let_def outs concat_consumers_def)
  have simple: "concat_is_simple ?g ?c = Inr ?simple" by (rule concat_is_simple_Inr [OF wf])
  show ?thesis
  proof (cases ?simple)
    case False
    with run simple have "s' = s" by (simp add: alias_concat_def Let_def outs)
    with act False rule show ?thesis by simp
  next
    case True
    with run simple obtain b where b: "concat_inputs_exclusive ?g (logical_buffers s) (inputs ?c) = Inr b"
      by (auto simp: alias_concat_def Let_def outs split: sum.splits)
    from concat_inputs_exclusive_Inr [OF b] have bex: "b = ?excl" .
    show ?thesis
    proof (cases "b \<and> ?few")
      case True
      with run simple \<open>?simple\<close> b have "s' = s\<lparr>sgraph := clear_action n ?g\<rparr>"
        by (auto simp: alias_concat_def Let_def outs)
      then have "\<not> is_action (nodes (sgraph s') n)" by (simp add: not_action_clear)
      with True \<open>?simple\<close> bex rule show ?thesis by simp
    next
      case False
      with run simple \<open>?simple\<close> b have "s' = s"
        by (auto simp: alias_concat_def Let_def outs split: if_splits bool.splits)
      with act False bex rule show ?thesis by auto
    qed
  qed
qed

text \<open>
  C4. When the alias analyser returns, a visited concat node that is well formed and
  carried the action bit has lost the bit if and only if the concat rule of the
  specification holds for it in the state the analyser started from: the axis is 0 or the
  dimensions before the axis are all one, no input buffer is tagged input or rdata or
  produced by a slice, and fewer than two consumers of its output are concats. The visits
  of other nodes change neither the rule nor the attributes of the node.
\<close>

theorem concat_view_rule_iff:
  assumes order: "visit_order fuel (sgraph s) (sched_outputs s) = Some order"
    and run: "analyze_buffer_alias fuel s = Some (Inr s')"
    and visited: "n \<in> set order"
    and concat: "runtime_opcode (nodes (sgraph s) n) = op_concat"
    and wf: "concat_well_formed (sgraph s) n"
    and act: "is_action (nodes (sgraph s) n)"
  shows "\<not> is_action (nodes (sgraph s') n) \<longleftrightarrow> concat_view_rule (sgraph s) (logical_buffers s) n"
proof -
  from run order have all: "efold alias_visit order s = Inr s'"
    by (simp add: analyze_buffer_alias_def relay_ir_visit_def)
  have dist: "distinct order" by (rule visit_order_distinct [OF order])
  from visited obtain pre post where split: "order = pre @ n # post"
    by (auto dest: split_list)
  with dist have notin: "n \<notin> set pre" "n \<notin> set post" by auto
  from all obtain s1 s2 where pre: "efold alias_visit pre s = Inr s1"
    and visit: "alias_visit n s1 = Inr s2" and post: "efold alias_visit post s2 = Inr s'"
    by (auto simp: split efold_append split: sum.splits)
  from efold_alias_visit_same_topology [OF pre] notin
  have t1: "same_topology s s1" and n1: "nodes (sgraph s1) n = nodes (sgraph s) n" by auto
  from efold_alias_visit_same_topology [OF post] notin
  have n2: "nodes (sgraph s') n = nodes (sgraph s2) n" by auto
  from visit concat n1 have vc: "alias_concat n s1 = Inr s2" by (simp add: alias_visit_def)
  have "\<not> is_action (nodes (sgraph s2) n) \<longleftrightarrow> concat_view_rule (sgraph s1) (logical_buffers s1) n"
    using vc by (rule alias_concat_rule) (use wf act n1 same_topology_rule(2) [OF t1] in simp_all)
  then show ?thesis by (simp add: n2 same_topology_rule(1) [OF t1])
qed

lemma concat_scheduler_order:
  "visit_order 4 (sgraph (concat_scheduler l)) (sched_outputs (concat_scheduler l)) = Some [0, 1, 2, 3]"
  by (simp add: concat_scheduler_def visit_order_def concat_graph_def producer_def eval_nat_numeral)

lemma concat_scheduler_well_formed:
  "concat_well_formed (sgraph (concat_scheduler l)) 2"
  "runtime_opcode (nodes (sgraph (concat_scheduler l)) 2) = op_concat"
  "is_action (nodes (sgraph (concat_scheduler l)) 2)"
  by (simp_all add: concat_well_formed_def concat_scheduler_def concat_graph_def is_action_def
      node_attr_action_def)

lemma concat_scheduler_rule:
  "concat_view_rule (sgraph (concat_scheduler l)) (logical_buffers (concat_scheduler l)) 2
     \<longleftrightarrow> l \<noteq> mem_input \<and> l \<noteq> mem_rdata"
  by (simp add: concat_view_rule_def concat_scheduler_def concat_graph_def concat_buffers_def
      memory_location_of_def producer_def consumer_opcode_def)

lemma concat_scheduler_run:
  "analyze_buffer_alias 4 (concat_scheduler l)
     = Some (Inr (if l \<noteq> mem_input \<and> l \<noteq> mem_rdata
                  then (concat_scheduler l)\<lparr>sgraph := clear_action 2 concat_graph\<rparr>
                  else concat_scheduler l))"
proof -
  let ?S = "concat_scheduler l"
  let ?S' = "if l \<noteq> mem_input \<and> l \<noteq> mem_rdata
             then ?S\<lparr>sgraph := clear_action 2 concat_graph\<rparr> else ?S"
  have e0: "alias_visit 0 ?S = Inr ?S" and e1: "alias_visit 1 ?S = Inr ?S"
    by (simp_all add: alias_visit_def concat_scheduler_def concat_graph_def)
  have c: "alias_visit 2 ?S = Inr ?S'"
    by (simp add: alias_visit_def alias_concat_def concat_is_simple_def concat_consumers_def
        concat_scheduler_def concat_graph_def concat_buffers_def producer_def consumer_opcode_def)
  have e3: "alias_visit 3 ?S' = Inr ?S'"
    by (simp add: alias_visit_def concat_scheduler_def concat_graph_def clear_action_def)
  have "efold alias_visit [0, 1, 2, 3] ?S = Inr ?S'"
    by (simp only: efold.simps e0 e1 c e3 sum.case)
  then show ?thesis
    by (simp only: analyze_buffer_alias_def relay_ir_visit_def concat_scheduler_order option.map)
qed

theorem concat_view_rule_iff_witness:
  "concat_well_formed (sgraph (concat_scheduler mem_data)) 2
   \<and> is_action (nodes (sgraph (concat_scheduler mem_data)) 2)
   \<and> (\<exists>s'. analyze_buffer_alias 4 (concat_scheduler mem_data) = Some (Inr s')
        \<and> \<not> is_action (nodes (sgraph s') 2)
        \<and> concat_view_rule (sgraph (concat_scheduler mem_data)) (logical_buffers (concat_scheduler mem_data)) 2)
   \<and> (\<exists>s'. analyze_buffer_alias 4 (concat_scheduler mem_rdata) = Some (Inr s')
        \<and> is_action (nodes (sgraph s') 2)
        \<and> \<not> concat_view_rule (sgraph (concat_scheduler mem_rdata)) (logical_buffers (concat_scheduler mem_rdata)) 2)"
proof -
  let ?v = "(concat_scheduler mem_data)\<lparr>sgraph := clear_action 2 concat_graph\<rparr>"
  have in_order: "2 \<in> set [0, 1, 2, 3 :: nat]" by simp
  have run1: "analyze_buffer_alias 4 (concat_scheduler mem_data) = Some (Inr ?v)"
    by (simp add: concat_scheduler_run)
  have run2: "analyze_buffer_alias 4 (concat_scheduler mem_rdata) = Some (Inr (concat_scheduler mem_rdata))"
    by (simp add: concat_scheduler_run)
  have r1: "concat_view_rule (sgraph (concat_scheduler mem_data)) (logical_buffers (concat_scheduler mem_data)) 2"
    and r2: "\<not> concat_view_rule (sgraph (concat_scheduler mem_rdata)) (logical_buffers (concat_scheduler mem_rdata)) 2"
    by (simp_all add: concat_scheduler_rule)
  from concat_view_rule_iff [OF concat_scheduler_order run1 in_order concat_scheduler_well_formed(2,1,3)] r1
  have a1: "\<not> is_action (nodes (sgraph ?v) 2)" by simp
  from concat_view_rule_iff [OF concat_scheduler_order run2 in_order concat_scheduler_well_formed(2,1,3)] r2
  have a2: "is_action (nodes (sgraph (concat_scheduler mem_rdata)) 2)" by simp
  show ?thesis
    using concat_scheduler_well_formed(1,3) [of mem_data] run1 a1 r1 run2 a2 r2 by blast
qed

section \<open>The offsets of the concat index resolver\<close>

subsection \<open>The two inner loops\<close>






subsection \<open>The walk through the parents\<close>










subsection \<open>One visit, and the whole pass\<close>










subsection \<open>The pass returns on an acyclic graph\<close>





subsection \<open>The descriptor of an input after the pass\<close>




subsection \<open>Nested concats along different axes\<close>

















subsection \<open>The offset of an input of a view\<close>




section \<open>The lifetime closer\<close>

lemma top_descriptor_has_parent:
  "top_descriptor bufs k d \<Longrightarrow> \<exists>b p. bufs k = Some b \<and> lb_parent b = Some p"
  by (induction rule: top_descriptor.induct) auto

lemma top_descriptor_root:
  "top_descriptor bufs k d \<Longrightarrow> \<exists>r. bufs (pd_parent d) = Some r \<and> lb_parent r = None"
  by (induction rule: top_descriptor.induct) auto

lemma top_descriptor_alias_root:
  "top_descriptor bufs k d \<Longrightarrow> alias_root bufs k (pd_parent d)"
proof (induction rule: top_descriptor.induct)
  case (below_root k b p pb)
  then show ?case by (auto intro: alias_root.intros)
next
  case (further k b p d)
  then show ?case by (auto intro: alias_root.parent)
qed

lemma top_descriptor_rank:
  assumes "parent_ranked rk bufs"
  shows "top_descriptor bufs k d \<Longrightarrow> rk (pd_parent d) < rk k"
proof (induction rule: top_descriptor.induct)
  case (below_root k b p pb)
  with assms show ?case by (auto simp: parent_ranked_def)
next
  case (further k b p d)
  with assms have "rk (pd_parent p) < rk k" by (auto simp: parent_ranked_def)
  with further.IH show ?case by simp
qed

lemma top_descriptor_exists:
  assumes "parent_ranked rk bufs"
  shows "bufs k = Some b \<Longrightarrow> lb_parent b = Some p \<Longrightarrow> \<exists>d. top_descriptor bufs k d"
proof (induction "rk k" arbitrary: k b p rule: less_induct)
  case less
  from assms less.prems have "bufs (pd_parent p) \<noteq> None" and lt: "rk (pd_parent p) < rk k"
    unfolding parent_ranked_def by blast+
  then obtain pb where pb: "bufs (pd_parent p) = Some pb" by auto
  show ?case
  proof (cases "lb_parent pb")
    case None
    with less.prems pb show ?thesis by (auto intro: top_descriptor.below_root)
  next
    case (Some q)
    from less.hyps [OF lt pb Some] obtain d where "top_descriptor bufs (pd_parent p) d" ..
    with less.prems show ?thesis by (auto intro: top_descriptor.further)
  qed
qed

lemma top_descriptor_cases:
  assumes "top_descriptor bufs k d" "bufs k = Some b" "lb_parent b = Some p"
  shows "(\<exists>pb. bufs (pd_parent p) = Some pb \<and> lb_parent pb = None \<and> d = p)
     \<or> top_descriptor bufs (pd_parent p) d"
  using assms by (cases rule: top_descriptor.cases) simp_all

lemma top_descriptor_unique:
  "top_descriptor bufs k d \<Longrightarrow> top_descriptor bufs k d' \<Longrightarrow> d = d'"
proof (induction arbitrary: d' rule: top_descriptor.induct)
  case (below_root k b p pb)
  from top_descriptor_cases [OF below_root.prems below_root.hyps(1,2)] show ?case
  proof
    assume "\<exists>pb. bufs (pd_parent p) = Some pb \<and> lb_parent pb = None \<and> d' = p"
    then show ?thesis by auto
  next
    assume "top_descriptor bufs (pd_parent p) d'"
    from top_descriptor_has_parent [OF this] below_root.hyps(3,4) show ?thesis by simp
  qed
next
  case (further k b p d)
  from top_descriptor_cases [OF further.prems further.hyps(1,2)] show ?case
  proof
    assume "\<exists>pb. bufs (pd_parent p) = Some pb \<and> lb_parent pb = None \<and> d' = p"
    with top_descriptor_has_parent [OF further.hyps(3)] show ?thesis by auto
  next
    assume "top_descriptor bufs (pd_parent p) d'"
    then show ?thesis by (rule further.IH)
  qed
qed

lemma assign_parent_none:
  "bufs k = Some b \<Longrightarrow> lb_parent b = None \<Longrightarrow> assign_parent k bufs = Some (Inr bufs)"
  by (subst assign_parent.simps) simp

lemma assign_parent_stop:
  "bufs k = Some b \<Longrightarrow> lb_parent b = Some p \<Longrightarrow> bufs (pd_parent p) = Some pb \<Longrightarrow>
   lb_parent pb = None \<Longrightarrow> assign_parent k bufs = Some (Inr bufs)"
  by (subst assign_parent.simps) simp

lemma assign_parent_go:
  "bufs k = Some b \<Longrightarrow> lb_parent b = Some p \<Longrightarrow> bufs (pd_parent p) = Some pb \<Longrightarrow>
   lb_parent pb = Some q \<Longrightarrow> assign_parent k bufs = assign_parent k (bufs(k \<mapsto> b\<lparr>lb_parent := Some q\<rparr>))"
  by (subst assign_parent.simps) simp

text \<open>The inner loop, started with the descriptor of an ancestor in the parent field.\<close>

lemma assign_parent_from:
  assumes rk: "parent_ranked rk bufs" and k: "bufs k = Some b"
  shows "top_descriptor bufs m d \<Longrightarrow> rk m \<le> rk k \<Longrightarrow> bufs m = Some bm \<Longrightarrow>
     assign_parent k (bufs(k \<mapsto> b\<lparr>lb_parent := lb_parent bm\<rparr>))
       = Some (Inr (bufs(k \<mapsto> b\<lparr>lb_parent := Some d\<rparr>)))"
proof (induction arbitrary: bm rule: top_descriptor.induct)
  case (below_root m b' p pb)
  from rk below_root.hyps have "rk (pd_parent p) < rk m" unfolding parent_ranked_def by blast
  with below_root.prems have ne: "pd_parent p \<noteq> k" by auto
  let ?bufs = "bufs(k \<mapsto> b\<lparr>lb_parent := lb_parent bm\<rparr>)"
  have bm: "lb_parent bm = Some p" using below_root by simp
  have "assign_parent k ?bufs = Some (Inr ?bufs)"
    by (rule assign_parent_stop [where b = "b\<lparr>lb_parent := lb_parent bm\<rparr>" and p = p and pb = pb])
      (use bm ne below_root.hyps in simp_all)
  then show ?case by (simp add: bm fun_upd_def)
next
  case (further m b' p d)
  from rk further.hyps have lt: "rk (pd_parent p) < rk m" unfolding parent_ranked_def by blast
  with further.prems have ne: "pd_parent p \<noteq> k" and le: "rk (pd_parent p) \<le> rk k" by auto
  from top_descriptor_has_parent [OF further.hyps(3)] obtain pb q where
    pb: "bufs (pd_parent p) = Some pb" "lb_parent pb = Some q" by auto
  let ?bufs = "bufs(k \<mapsto> b\<lparr>lb_parent := lb_parent bm\<rparr>)"
  have bm: "lb_parent bm = Some p" using further by simp
  have "assign_parent k ?bufs
      = assign_parent k (?bufs(k \<mapsto> (b\<lparr>lb_parent := lb_parent bm\<rparr>)\<lparr>lb_parent := Some q\<rparr>))"
    by (rule assign_parent_go [where p = p and pb = pb]) (use bm ne pb in simp_all)
  also have "?bufs(k \<mapsto> (b\<lparr>lb_parent := lb_parent bm\<rparr>)\<lparr>lb_parent := Some q\<rparr>)
      = bufs(k \<mapsto> b\<lparr>lb_parent := lb_parent pb\<rparr>)"
    by (simp add: pb)
  also have "assign_parent k (bufs(k \<mapsto> b\<lparr>lb_parent := lb_parent pb\<rparr>))
       = Some (Inr (bufs(k \<mapsto> b\<lparr>lb_parent := Some d\<rparr>)))"
    using further.IH [OF le pb(1)] by (simp add: fun_upd_def)
  finally show ?case by (simp add: fun_upd_def)
qed

lemma assign_parent_step:
  assumes rk: "parent_ranked rk bufs" and k: "bufs k = Some b" and d: "top_descriptor bufs k d"
  shows "assign_parent k bufs = Some (Inr (bufs(k \<mapsto> b\<lparr>lb_parent := Some d\<rparr>)))"
proof -
  have "bufs(k \<mapsto> b\<lparr>lb_parent := lb_parent b\<rparr>) = bufs" using k by (auto simp: fun_eq_iff)
  with assign_parent_from [OF rk k d _ k] show ?thesis by simp
qed

lemma parent_ranked_promote:
  assumes rk: "parent_ranked rk bufs" and k: "bufs k = Some b" and d: "top_descriptor bufs k d"
  shows "parent_ranked rk (bufs(k \<mapsto> b\<lparr>lb_parent := Some d\<rparr>))"
  unfolding parent_ranked_def
proof (intro allI impI)
  fix a ba p
  assume a: "(bufs(k \<mapsto> b\<lparr>lb_parent := Some d\<rparr>)) a = Some ba \<and> lb_parent ba = Some p"
  show "(bufs(k \<mapsto> b\<lparr>lb_parent := Some d\<rparr>)) (pd_parent p) \<noteq> None \<and> rk (pd_parent p) < rk a"
  proof (cases "a = k")
    case True
    with a have "p = d" by auto
    with top_descriptor_root [OF d] top_descriptor_rank [OF rk d] True show ?thesis by auto
  next
    case False
    with a have "bufs a = Some ba \<and> lb_parent ba = Some p" by simp
    with rk have "bufs (pd_parent p) \<noteq> None \<and> rk (pd_parent p) < rk a"
      unfolding parent_ranked_def by blast
    then show ?thesis by auto
  qed
qed

lemma top_descriptor_promote:
  assumes k: "bufs k = Some b" and dk: "top_descriptor bufs k dk"
  shows "top_descriptor (bufs(k \<mapsto> b\<lparr>lb_parent := Some dk\<rparr>)) a d \<Longrightarrow> top_descriptor bufs a d"
proof (induction rule: top_descriptor.induct)
  case (below_root a ba p pb)
  have root_ne: "pd_parent p \<noteq> k" using below_root.hyps by (auto split: if_splits)
  then have pb: "bufs (pd_parent p) = Some pb" using below_root.hyps by simp
  show ?case
  proof (cases "a = k")
    case True
    with below_root.hyps have "p = dk" by auto
    with dk True show ?thesis by simp
  next
    case False
    with below_root.hyps have "bufs a = Some ba" by simp
    with below_root.hyps pb show ?thesis by (auto intro: top_descriptor.below_root)
  qed
next
  case (further a ba p d)
  from top_descriptor_has_parent [OF dk] k obtain pk where pk: "lb_parent b = Some pk" by auto
  show ?case
  proof (cases "a = k")
    case True
    with further.hyps have p: "p = dk" by auto
    from top_descriptor_root [OF dk] obtain r where r: "bufs (pd_parent dk) = Some r" "lb_parent r = None"
      by auto
    with k pk have "pd_parent dk \<noteq> k" by auto
    with r have "(bufs(k \<mapsto> b\<lparr>lb_parent := Some dk\<rparr>)) (pd_parent dk) = Some r" by simp
    with top_descriptor_has_parent [OF further.hyps(3)] r p show ?thesis by auto
  next
    case False
    with further.hyps have "bufs a = Some ba" by simp
    with further.hyps further.IH show ?thesis by (auto intro: top_descriptor.further)
  qed
qed

lemma vfold_assign_parent:
  assumes "parent_ranked rk bufs0" "set ks \<subseteq> dom bufs0"
  shows "\<exists>bufs. vfold assign_parent ks bufs0 = Some (Inr bufs)
    \<and> parent_ranked rk bufs
    \<and> (\<forall>k. (bufs k = None \<longleftrightarrow> bufs0 k = None)
          \<and> (k \<notin> set ks \<longrightarrow> bufs k = bufs0 k)
          \<and> (\<forall>b. bufs0 k = Some b \<and> lb_parent b = None \<longrightarrow> bufs k = Some b)
          \<and> (\<forall>b d. bufs0 k = Some b \<and> top_descriptor bufs0 k d \<and> k \<in> set ks
                \<longrightarrow> bufs k = Some (b\<lparr>lb_parent := Some d\<rparr>)))"
  using assms
proof (induction ks arbitrary: bufs0)
  case Nil
  then show ?case by simp
next
  case (Cons k ks)
  from Cons.prems obtain b where b: "bufs0 k = Some b" by auto
  show ?case
  proof (cases "lb_parent b")
    case None
    have step: "assign_parent k bufs0 = Some (Inr bufs0)" using b None by (rule assign_parent_none)
    from Cons.IH [of bufs0] Cons.prems obtain bufs where
      r: "vfold assign_parent ks bufs0 = Some (Inr bufs)" and rk: "parent_ranked rk bufs"
      and p: "\<forall>k. (bufs k = None \<longleftrightarrow> bufs0 k = None)
          \<and> (k \<notin> set ks \<longrightarrow> bufs k = bufs0 k)
          \<and> (\<forall>b. bufs0 k = Some b \<and> lb_parent b = None \<longrightarrow> bufs k = Some b)
          \<and> (\<forall>b d. bufs0 k = Some b \<and> top_descriptor bufs0 k d \<and> k \<in> set ks
                \<longrightarrow> bufs k = Some (b\<lparr>lb_parent := Some d\<rparr>))"
      by auto
    have nk: "\<not> top_descriptor bufs0 k d" for d
      using top_descriptor_has_parent [of bufs0 k d] b None by auto
    have run: "vfold assign_parent (k # ks) bufs0 = Some (Inr bufs)"
      by (simp add: step obind_return r)
    have "(bufs a = None \<longleftrightarrow> bufs0 a = None)
          \<and> (a \<notin> set (k # ks) \<longrightarrow> bufs a = bufs0 a)
          \<and> (\<forall>b. bufs0 a = Some b \<and> lb_parent b = None \<longrightarrow> bufs a = Some b)
          \<and> (\<forall>b d. bufs0 a = Some b \<and> top_descriptor bufs0 a d \<and> a \<in> set (k # ks)
                \<longrightarrow> bufs a = Some (b\<lparr>lb_parent := Some d\<rparr>))" for a
    proof (intro conjI)
      show "(bufs a = None) = (bufs0 a = None)" using p by blast
      show "a \<notin> set (k # ks) \<longrightarrow> bufs a = bufs0 a" using p by simp
      show "\<forall>b. bufs0 a = Some b \<and> lb_parent b = None \<longrightarrow> bufs a = Some b" using p by blast
      show "\<forall>b d. bufs0 a = Some b \<and> top_descriptor bufs0 a d \<and> a \<in> set (k # ks)
                \<longrightarrow> bufs a = Some (b\<lparr>lb_parent := Some d\<rparr>)"
        using p nk by auto
    qed
    with run rk show ?thesis by blast
  next
    case (Some pk)
    from top_descriptor_exists [OF Cons.prems(1) b Some] obtain dk where dk: "top_descriptor bufs0 k dk" ..
    let ?bufs1 = "bufs0(k \<mapsto> b\<lparr>lb_parent := Some dk\<rparr>)"
    have step: "assign_parent k bufs0 = Some (Inr ?bufs1)"
      by (rule assign_parent_step [OF Cons.prems(1) b dk])
    have rk1: "parent_ranked rk ?bufs1" by (rule parent_ranked_promote [OF Cons.prems(1) b dk])
    have dom1: "set ks \<subseteq> dom ?bufs1" using Cons.prems(2) by auto
    from Cons.IH [OF rk1 dom1] obtain bufs where
      r: "vfold assign_parent ks ?bufs1 = Some (Inr bufs)" and rk: "parent_ranked rk bufs"
      and p: "\<And>a. (bufs a = None \<longleftrightarrow> ?bufs1 a = None)
          \<and> (a \<notin> set ks \<longrightarrow> bufs a = ?bufs1 a)
          \<and> (\<forall>b'. ?bufs1 a = Some b' \<and> lb_parent b' = None \<longrightarrow> bufs a = Some b')
          \<and> (\<forall>b' d. ?bufs1 a = Some b' \<and> top_descriptor ?bufs1 a d \<and> a \<in> set ks
                \<longrightarrow> bufs a = Some (b'\<lparr>lb_parent := Some d\<rparr>))"
      by blast
    have same: "top_descriptor ?bufs1 a d" if "top_descriptor bufs0 a d" for a d
    proof -
      from top_descriptor_has_parent [OF that] obtain ba pa where
        ba: "bufs0 a = Some ba" "lb_parent ba = Some pa" by auto
      have "\<exists>b1 p1. ?bufs1 a = Some b1 \<and> lb_parent b1 = Some p1" using ba by auto
      then obtain b1 p1 where "?bufs1 a = Some b1" "lb_parent b1 = Some p1" by blast
      from top_descriptor_exists [OF rk1 this] obtain d' where d': "top_descriptor ?bufs1 a d'" ..
      from top_descriptor_promote [OF b dk d'] that have "d' = d" by (rule top_descriptor_unique)
      with d' show ?thesis by simp
    qed
    have run: "vfold assign_parent (k # ks) bufs0 = Some (Inr bufs)"
      by (simp add: step obind_return r)
    have "(bufs a = None \<longleftrightarrow> bufs0 a = None)
          \<and> (a \<notin> set (k # ks) \<longrightarrow> bufs a = bufs0 a)
          \<and> (\<forall>b. bufs0 a = Some b \<and> lb_parent b = None \<longrightarrow> bufs a = Some b)
          \<and> (\<forall>b d. bufs0 a = Some b \<and> top_descriptor bufs0 a d \<and> a \<in> set (k # ks)
                \<longrightarrow> bufs a = Some (b\<lparr>lb_parent := Some d\<rparr>))" for a
    proof (intro conjI)
      show "(bufs a = None) = (bufs0 a = None)" using p [of a] b by (cases "a = k") auto
      show "a \<notin> set (k # ks) \<longrightarrow> bufs a = bufs0 a" using p [of a] by simp
      show "\<forall>b. bufs0 a = Some b \<and> lb_parent b = None \<longrightarrow> bufs a = Some b"
        using p [of a] b Some by (cases "a = k") auto
      show "\<forall>b' d. bufs0 a = Some b' \<and> top_descriptor bufs0 a d \<and> a \<in> set (k # ks)
                \<longrightarrow> bufs a = Some (b'\<lparr>lb_parent := Some d\<rparr>)"
      proof (intro allI impI)
        fix b' d
        assume h: "bufs0 a = Some b' \<and> top_descriptor bufs0 a d \<and> a \<in> set (k # ks)"
        then have d1: "top_descriptor ?bufs1 a d" using same by blast
        show "bufs a = Some (b'\<lparr>lb_parent := Some d\<rparr>)"
        proof (cases "a = k")
          case True
          with h b have b': "b' = b" by simp
          from h dk True have dd: "d = dk" using top_descriptor_unique by blast
          show ?thesis
          proof (cases "a \<in> set ks")
            case True
            with p [of a] d1 \<open>a = k\<close> have "bufs a = Some ((b\<lparr>lb_parent := Some dk\<rparr>)\<lparr>lb_parent := Some d\<rparr>)"
              by auto
            then show ?thesis by (simp add: b' dd)
          next
            case False
            with p [of a] \<open>a = k\<close> show ?thesis by (simp add: b' dd)
          qed
        next
          case False
          with h have "a \<in> set ks" "?bufs1 a = Some b'" by auto
          with p [of a] d1 show ?thesis by blast
        qed
      qed
    qed
    with run rk show ?thesis by blast
  qed
qed

lemma extend_lifetime_root:
  "bufs k = Some b \<Longrightarrow> lb_parent b = None \<Longrightarrow> extend_lifetime k bufs = Some (Inr bufs)"
  by (simp add: extend_lifetime_def)

lemma extend_lifetime_child:
  "bufs k = Some b \<Longrightarrow> lb_parent b = Some d \<Longrightarrow> bufs (pd_parent d) = Some rb \<Longrightarrow>
   extend_lifetime k bufs = Some (Inr (bufs(pd_parent d \<mapsto>
     rb\<lparr>lb_lifetime := (lb_lifetime rb)\<lparr>
        birth := min (birth_of bufs k) (birth_of bufs (pd_parent d)),
        age := max (end_of bufs k) (end_of bufs (pd_parent d))
                 - min (birth_of bufs k) (birth_of bufs (pd_parent d))\<rparr>\<rparr>)))"
  by (simp add: extend_lifetime_def Let_def birth_of_def end_of_def)

lemma vfold_extend_lifetime:
  assumes "flat cur" "set ks \<subseteq> dom cur"
  shows "\<exists>res. vfold extend_lifetime ks cur = Some (Inr res)
    \<and> (\<forall>k. (res k = None \<longleftrightarrow> cur k = None)
          \<and> (\<forall>b. cur k = Some b \<and> lb_parent b \<noteq> None \<longrightarrow> res k = Some b)
          \<and> (\<forall>b. cur k = Some b \<and> lb_parent b = None \<longrightarrow>
                (\<exists>l. res k = Some (b\<lparr>lb_lifetime := l\<rparr>)
                   \<and> used_count l = used_count (lb_lifetime b)
                   \<and> birth l = fold min (map (birth_of cur) (filter (is_child cur k) ks)) (birth_of cur k)
                   \<and> lifetime_end l
                       = fold max (map (end_of cur) (filter (is_child cur k) ks)) (end_of cur k))))"
  using assms
proof (induction ks arbitrary: cur)
  case Nil
  have "\<exists>l. b = b\<lparr>lb_lifetime := l\<rparr> \<and> used_count l = used_count (lb_lifetime b)
      \<and> birth l = birth (lb_lifetime b) \<and> lifetime_end l = lifetime_end (lb_lifetime b)"
    for b :: logical_buffer
    by (rule exI [of _ "lb_lifetime b"]) simp
  then show ?case by (auto simp: birth_of_def end_of_def)
next
  case (Cons k ks)
  from Cons.prems obtain b where b: "cur k = Some b" by auto
  show ?case
  proof (cases "lb_parent b")
    case None
    have step: "extend_lifetime k cur = Some (Inr cur)" using b None by (rule extend_lifetime_root)
    have nc: "\<not> is_child cur r k" for r using b None by (simp add: is_child_def)
    from Cons.IH [OF Cons.prems(1)] Cons.prems(2) obtain res where
      r: "vfold extend_lifetime ks cur = Some (Inr res)"
      and p: "\<forall>k. (res k = None \<longleftrightarrow> cur k = None)
          \<and> (\<forall>b. cur k = Some b \<and> lb_parent b \<noteq> None \<longrightarrow> res k = Some b)
          \<and> (\<forall>b. cur k = Some b \<and> lb_parent b = None \<longrightarrow>
                (\<exists>l. res k = Some (b\<lparr>lb_lifetime := l\<rparr>)
                   \<and> used_count l = used_count (lb_lifetime b)
                   \<and> birth l = fold min (map (birth_of cur) (filter (is_child cur k) ks)) (birth_of cur k)
                   \<and> lifetime_end l
                       = fold max (map (end_of cur) (filter (is_child cur k) ks)) (end_of cur k)))"
      by auto
    have "vfold extend_lifetime (k # ks) cur = Some (Inr res)"
      by (simp add: step obind_return r)
    with p show ?thesis by (simp add: nc)
  next
    case (Some d)
    let ?r = "pd_parent d"
    from Cons.prems(1) b Some obtain rb where rb: "cur ?r = Some rb" "lb_parent rb = None"
      unfolding flat_def by blast
    have rk: "?r \<noteq> k" using rb b Some by auto
    let ?l = "(lb_lifetime rb)\<lparr>
        birth := min (birth_of cur k) (birth_of cur ?r),
        age := max (end_of cur k) (end_of cur ?r) - min (birth_of cur k) (birth_of cur ?r)\<rparr>"
    let ?cur1 = "cur(?r \<mapsto> rb\<lparr>lb_lifetime := ?l\<rparr>)"
    have step: "extend_lifetime k cur = Some (Inr ?cur1)"
      by (rule extend_lifetime_child [OF b Some rb(1)])
    have flat1: "flat ?cur1"
      unfolding flat_def
    proof (intro allI impI)
      fix a ba da
      assume a: "?cur1 a = Some ba \<and> lb_parent ba = Some da"
      with rb have "a \<noteq> ?r" by auto
      with a have "cur a = Some ba \<and> lb_parent ba = Some da" by simp
      with Cons.prems(1) obtain x where x: "cur (pd_parent da) = Some x" "lb_parent x = None"
        unfolding flat_def by blast
      show "\<exists>r. ?cur1 (pd_parent da) = Some r \<and> lb_parent r = None"
        using x rb by (cases "pd_parent da = ?r") auto
    qed
    have dom1: "set ks \<subseteq> dom ?cur1" using Cons.prems(2) by auto
    have child1: "is_child ?cur1 r = is_child cur r" for r
      using rb by (auto simp: is_child_def fun_eq_iff split: option.splits)
    have le: "min (birth_of cur k) (birth_of cur ?r) \<le> max (end_of cur k) (end_of cur ?r)"
      by (simp add: birth_of_def end_of_def lifetime_end_def min_def max_def)
    have b1: "birth_of ?cur1 c = (if c = ?r then min (birth_of cur k) (birth_of cur ?r) else birth_of cur c)"
      and e1: "end_of ?cur1 c = (if c = ?r then max (end_of cur k) (end_of cur ?r) else end_of cur c)" for c
      using le by (simp_all add: birth_of_def end_of_def lifetime_end_def)
    have cne: "c \<noteq> ?r" if "is_child cur r c" for r c
      using that rb by (auto simp: is_child_def split: option.splits)
    have maps: "map (birth_of ?cur1) (filter (is_child cur r) ks) = map (birth_of cur) (filter (is_child cur r) ks)"
      "map (end_of ?cur1) (filter (is_child cur r) ks) = map (end_of cur) (filter (is_child cur r) ks)" for r
      using cne by (auto simp: b1 e1)
    from Cons.IH [OF flat1 dom1] obtain res where
      r: "vfold extend_lifetime ks ?cur1 = Some (Inr res)"
      and p: "\<And>a. (res a = None \<longleftrightarrow> ?cur1 a = None)
          \<and> (\<forall>b. ?cur1 a = Some b \<and> lb_parent b \<noteq> None \<longrightarrow> res a = Some b)
          \<and> (\<forall>b. ?cur1 a = Some b \<and> lb_parent b = None \<longrightarrow>
                (\<exists>l. res a = Some (b\<lparr>lb_lifetime := l\<rparr>)
                   \<and> used_count l = used_count (lb_lifetime b)
                   \<and> birth l = fold min (map (birth_of ?cur1) (filter (is_child ?cur1 a) ks)) (birth_of ?cur1 a)
                   \<and> lifetime_end l
                       = fold max (map (end_of ?cur1) (filter (is_child ?cur1 a) ks)) (end_of ?cur1 a)))"
      by blast
    have run: "vfold extend_lifetime (k # ks) cur = Some (Inr res)"
      by (simp add: step obind_return r)
    have ck: "is_child cur r k = (r = ?r)" for r using b Some by (auto simp: is_child_def)
    have "(res a = None \<longleftrightarrow> cur a = None)
          \<and> (\<forall>b. cur a = Some b \<and> lb_parent b \<noteq> None \<longrightarrow> res a = Some b)
          \<and> (\<forall>b. cur a = Some b \<and> lb_parent b = None \<longrightarrow>
                (\<exists>l. res a = Some (b\<lparr>lb_lifetime := l\<rparr>)
                   \<and> used_count l = used_count (lb_lifetime b)
                   \<and> birth l = fold min (map (birth_of cur) (filter (is_child cur a) (k # ks))) (birth_of cur a)
                   \<and> lifetime_end l
                       = fold max (map (end_of cur) (filter (is_child cur a) (k # ks))) (end_of cur a)))" for a
    proof (cases "a = ?r")
      case True
      from p [of a] True obtain l where
        l: "res a = Some ((rb\<lparr>lb_lifetime := ?l\<rparr>)\<lparr>lb_lifetime := l\<rparr>)"
          "used_count l = used_count ?l"
          "birth l = fold min (map (birth_of ?cur1) (filter (is_child ?cur1 a) ks)) (birth_of ?cur1 a)"
          "lifetime_end l = fold max (map (end_of ?cur1) (filter (is_child ?cur1 a) ks)) (end_of ?cur1 a)"
        using rb by auto
      have "res a = Some (rb\<lparr>lb_lifetime := l\<rparr>)" using l(1) by simp
      moreover have "used_count l = used_count (lb_lifetime rb)" using l(2) by simp
      moreover have "birth l = fold min (map (birth_of cur) (filter (is_child cur a) (k # ks))) (birth_of cur a)"
        using l(3) True by (simp add: child1 maps ck b1)
      moreover have "lifetime_end l = fold max (map (end_of cur) (filter (is_child cur a) (k # ks))) (end_of cur a)"
        using l(4) True by (simp add: child1 maps ck e1)
      ultimately show ?thesis using True rb by auto
    next
      case False
      then have "?cur1 a = cur a" by simp
      with p [of a] False show ?thesis by (simp add: child1 maps ck b1 e1)
    qed
    with run show ?thesis by blast
  qed
qed

lemma top_descriptor_stored:
  "top_descriptor bufs m d \<Longrightarrow>
     \<exists>a ab. (a = m \<or> proper_ancestor bufs m a) \<and> bufs a = Some ab \<and> lb_parent ab = Some d"
proof (induction rule: top_descriptor.induct)
  case (below_root k b p pb)
  then show ?case by auto
next
  case (further k b p d)
  then obtain a ab where a: "a = pd_parent p \<or> proper_ancestor bufs (pd_parent p) a"
    "bufs a = Some ab" "lb_parent ab = Some d" by blast
  from a(1) further.hyps(1,2) have "proper_ancestor bufs k a"
    by (auto intro: proper_ancestor.intros)
  with a show ?case by blast
qed

lemma alias_root_unique: "alias_root bufs k r \<Longrightarrow> alias_root bufs k r' \<Longrightarrow> r = r'"
proof (induction arbitrary: r' rule: alias_root.induct)
  case (itself k b)
  from itself.prems itself.hyps show ?case by (cases rule: alias_root.cases) simp_all
next
  case (parent k b p r)
  from parent.prems parent.hyps(1,2) have "alias_root bufs (pd_parent p) r'"
    by (cases rule: alias_root.cases) simp_all
  then show ?case by (rule parent.IH)
qed

lemma alias_root_dom: "alias_root bufs k r \<Longrightarrow> k \<in> dom bufs"
  by (cases rule: alias_root.cases) auto

lemma fold_min_Min: "fold min xs (a :: nat) = Min (set (a # xs))"
  by (simp only: Min.set_eq_fold)

lemma fold_max_Max: "fold max xs (a :: nat) = Max (set (a # xs))"
  by (simp only: Max.set_eq_fold)

lemma fix_lifetime_buffers_result:
  assumes ranked: "parent_ranked rk bufs" and keys: "set ks = dom bufs"
  shows "\<exists>bufs1 bufs'. vfold assign_parent ks bufs = Some (Inr bufs1)
    \<and> fix_lifetime_buffers ks bufs = Some (Inr bufs')
    \<and> (\<forall>k b d. bufs k = Some b \<and> top_descriptor bufs k d \<longrightarrow>
          bufs1 k = Some (b\<lparr>lb_parent := Some d\<rparr>) \<and> bufs' k = Some (b\<lparr>lb_parent := Some d\<rparr>))
    \<and> (\<forall>r b. bufs r = Some b \<and> lb_parent b = None \<longrightarrow>
          bufs1 r = Some b
          \<and> (\<exists>l. bufs' r = Some (b\<lparr>lb_lifetime := l\<rparr>)
             \<and> used_count l = used_count (lb_lifetime b)
             \<and> birth l = Min (birth_of bufs ` {c. alias_root bufs c r})
             \<and> lifetime_end l = Max (end_of bufs ` {c. alias_root bufs c r})))
    \<and> (\<forall>k. bufs' k = None \<longleftrightarrow> bufs k = None)"
proof -
  have sub: "set ks \<subseteq> dom bufs" using keys by simp
  from vfold_assign_parent [OF ranked sub] obtain bufs1 where
    run1: "vfold assign_parent ks bufs = Some (Inr bufs1)"
    and all1: "\<forall>k. (bufs1 k = None \<longleftrightarrow> bufs k = None)
          \<and> (k \<notin> set ks \<longrightarrow> bufs1 k = bufs k)
          \<and> (\<forall>b. bufs k = Some b \<and> lb_parent b = None \<longrightarrow> bufs1 k = Some b)
          \<and> (\<forall>b d. bufs k = Some b \<and> top_descriptor bufs k d \<and> k \<in> set ks
                \<longrightarrow> bufs1 k = Some (b\<lparr>lb_parent := Some d\<rparr>))"
    by (elim exE conjE)
  have dom1: "bufs1 k = None \<longleftrightarrow> bufs k = None" for k
    using all1 [rule_format, of k] by (elim conjE)
  have root1: "bufs1 k = Some b" if "bufs k = Some b" "lb_parent b = None" for k b
    using all1 [rule_format, of k] that by blast
  have top1: "bufs1 k = Some (b\<lparr>lb_parent := Some d\<rparr>)"
    if "bufs k = Some b" "top_descriptor bufs k d" "k \<in> set ks" for k b d
    using all1 [rule_format, of k] that by blast
  have inks: "k \<in> set ks" if "bufs k = Some b" for k b using that keys by auto
  have shape1: "(lb_parent b = None \<and> bufs1 k = Some b)
      \<or> (\<exists>d. top_descriptor bufs k d \<and> bufs1 k = Some (b\<lparr>lb_parent := Some d\<rparr>))"
    if "bufs k = Some b" for k b
  proof (cases "lb_parent b")
    case None
    with root1 [OF that] show ?thesis by simp
  next
    case (Some p)
    from top_descriptor_exists [OF ranked that Some] obtain d where "top_descriptor bufs k d" ..
    with top1 [OF that _ inks [OF that]] show ?thesis by blast
  qed
  have flat1: "flat bufs1"
    unfolding flat_def
  proof (intro allI impI)
    fix k b1 d
    assume a: "bufs1 k = Some b1 \<and> lb_parent b1 = Some d"
    with dom1 [of k] obtain b where b: "bufs k = Some b" by auto
    from shape1 [OF b] a have "top_descriptor bufs k d" by auto
    from top_descriptor_root [OF this] obtain r where "bufs (pd_parent d) = Some r" "lb_parent r = None"
      by auto
    with root1 show "\<exists>r. bufs1 (pd_parent d) = Some r \<and> lb_parent r = None" by blast
  qed
  have ks1: "set ks \<subseteq> dom bufs1"
  proof
    fix k
    assume "k \<in> set ks"
    with keys have "bufs k \<noteq> None" by auto
    with dom1 [of k] show "k \<in> dom bufs1" by auto
  qed
  from vfold_extend_lifetime [OF flat1 ks1] obtain bufs' where
    run2: "vfold extend_lifetime ks bufs1 = Some (Inr bufs')"
    and all2: "\<forall>k. (bufs' k = None \<longleftrightarrow> bufs1 k = None)
          \<and> (\<forall>b. bufs1 k = Some b \<and> lb_parent b \<noteq> None \<longrightarrow> bufs' k = Some b)
          \<and> (\<forall>b. bufs1 k = Some b \<and> lb_parent b = None \<longrightarrow>
                (\<exists>l. bufs' k = Some (b\<lparr>lb_lifetime := l\<rparr>)
                   \<and> used_count l = used_count (lb_lifetime b)
                   \<and> birth l = fold min (map (birth_of bufs1) (filter (is_child bufs1 k) ks)) (birth_of bufs1 k)
                   \<and> lifetime_end l
                       = fold max (map (end_of bufs1) (filter (is_child bufs1 k) ks)) (end_of bufs1 k)))"
    by (elim exE conjE)
  have dom2: "bufs' k = None \<longleftrightarrow> bufs1 k = None" for k
    using all2 [rule_format, of k] by (elim conjE)
  have child2: "bufs' k = Some b" if "bufs1 k = Some b" "lb_parent b \<noteq> None" for k b
    using all2 [rule_format, of k] that by blast
  have root2: "\<exists>l. bufs' k = Some (b\<lparr>lb_lifetime := l\<rparr>)
          \<and> used_count l = used_count (lb_lifetime b)
          \<and> birth l = fold min (map (birth_of bufs1) (filter (is_child bufs1 k) ks)) (birth_of bufs1 k)
          \<and> lifetime_end l = fold max (map (end_of bufs1) (filter (is_child bufs1 k) ks)) (end_of bufs1 k)"
    if "bufs1 k = Some b" "lb_parent b = None" for k b
    using all2 [rule_format, of k] that by blast
  have run: "fix_lifetime_buffers ks bufs = Some (Inr bufs')"
    by (simp add: fix_lifetime_buffers_def run1 run2 obind_return)
  have life1: "birth_of bufs1 k = birth_of bufs k \<and> end_of bufs1 k = end_of bufs k" for k
  proof (cases "bufs k")
    case None
    with dom1 [of k] show ?thesis by (simp add: birth_of_def end_of_def)
  next
    case (Some b)
    from shape1 [OF Some] show ?thesis by (auto simp: birth_of_def end_of_def Some)
  qed
  then have life1': "birth_of bufs1 = birth_of bufs" "end_of bufs1 = end_of bufs"
    by (simp_all add: fun_eq_iff)
  have children: "insert r {c \<in> set ks. is_child bufs1 r c} = {c. alias_root bufs c r}"
    if r: "bufs r = Some b" "lb_parent b = None" for r b
  proof (intro set_eqI iffI)
    fix c
    assume "c \<in> insert r {c \<in> set ks. is_child bufs1 r c}"
    then consider "c = r" | "c \<in> set ks" "is_child bufs1 r c" by auto
    then show "c \<in> {c. alias_root bufs c r}"
    proof cases
      case 1
      with r show ?thesis by (auto intro: alias_root.itself)
    next
      case 2
      then obtain b1 d where b1: "bufs1 c = Some b1" "lb_parent b1 = Some d" "pd_parent d = r"
        by (auto simp: is_child_def split: option.splits)
      with dom1 [of c] obtain bc where bc: "bufs c = Some bc" by auto
      from shape1 [OF bc] b1 have "top_descriptor bufs c d" by auto
      from top_descriptor_alias_root [OF this] b1 show ?thesis by simp
    qed
  next
    fix c
    assume "c \<in> {c. alias_root bufs c r}"
    then have ar: "alias_root bufs c r" by simp
    show "c \<in> insert r {c \<in> set ks. is_child bufs1 r c}"
    proof (cases "c = r")
      case True
      then show ?thesis by simp
    next
      case False
      from alias_root_dom [OF ar] obtain bc where bc: "bufs c = Some bc" by auto
      from ar False bc have "lb_parent bc \<noteq> None"
        by (cases rule: alias_root.cases) auto
      with shape1 [OF bc] obtain d where d: "top_descriptor bufs c d"
        "bufs1 c = Some (bc\<lparr>lb_parent := Some d\<rparr>)" by auto
      from top_descriptor_alias_root [OF d(1)] ar have "pd_parent d = r" by (rule alias_root_unique)
      with d(2) inks [OF bc] show ?thesis by (simp add: is_child_def)
    qed
  qed
  have part_top: "bufs1 k = Some (b\<lparr>lb_parent := Some d\<rparr>) \<and> bufs' k = Some (b\<lparr>lb_parent := Some d\<rparr>)"
    if "bufs k = Some b" "top_descriptor bufs k d" for k b d
  proof -
    have "bufs1 k = Some (b\<lparr>lb_parent := Some d\<rparr>)" using top1 [OF that inks [OF that(1)]] .
    with child2 [OF this] show ?thesis by simp
  qed
  have part_root: "bufs1 r = Some b
          \<and> (\<exists>l. bufs' r = Some (b\<lparr>lb_lifetime := l\<rparr>)
             \<and> used_count l = used_count (lb_lifetime b)
             \<and> birth l = Min (birth_of bufs ` {c. alias_root bufs c r})
             \<and> lifetime_end l = Max (end_of bufs ` {c. alias_root bufs c r}))"
    if r: "bufs r = Some b" "lb_parent b = None" for r b
  proof -
    have b1: "bufs1 r = Some b" using root1 [OF r] .
    from root2 [OF b1 r(2)] obtain l where l: "bufs' r = Some (b\<lparr>lb_lifetime := l\<rparr>)"
      "used_count l = used_count (lb_lifetime b)"
      "birth l = fold min (map (birth_of bufs1) (filter (is_child bufs1 r) ks)) (birth_of bufs1 r)"
      "lifetime_end l = fold max (map (end_of bufs1) (filter (is_child bufs1 r) ks)) (end_of bufs1 r)"
      by blast
    have s1: "set (birth_of bufs r # map (birth_of bufs) (filter (is_child bufs1 r) ks))
        = birth_of bufs ` {c. alias_root bufs c r}"
      using children [OF r] by auto
    have s2: "set (end_of bufs r # map (end_of bufs) (filter (is_child bufs1 r) ks))
        = end_of bufs ` {c. alias_root bufs c r}"
      using children [OF r] by auto
    have "birth l = Min (birth_of bufs ` {c. alias_root bufs c r})"
      using l(3) by (simp only: life1' fold_min_Min s1)
    moreover have "lifetime_end l = Max (end_of bufs ` {c. alias_root bufs c r})"
      using l(4) by (simp only: life1' fold_max_Max s2)
    ultimately show ?thesis using b1 l(1,2) by blast
  qed
  have part_dom: "bufs' k = None \<longleftrightarrow> bufs k = None" for k
    using dom1 dom2 by simp
  show ?thesis
    by (intro exI [of _ bufs1] exI [of _ bufs'] conjI allI impI run1 run part_dom)
      (use part_top part_root in blast)+
qed

lemma alias_class_finite:
  "finite (dom bufs) \<Longrightarrow> finite {c. alias_root bufs c r}"
  by (rule finite_subset [of _ "dom bufs"]) (auto dest: alias_root_dom)

text \<open>
  C5. On parent chains that end at a root, with \<open>ks\<close> the keys of the map in the order
  the unordered map enumerates them, \<open>fix_lifetime\<close> returns, and afterwards every
  buffer that had a parent carries a descriptor that points at its alias root, the end of
  its original parent chain, which has no parent; the buffer keeps its own lifetime. The
  lifetime of a root starts at the least birth and ends at the greatest end among the
  buffers whose chains end at it (the root included), so the interval of the root holds
  the interval of every buffer that aliases it.
\<close>

theorem fix_lifetime_closes:
  assumes ranked: "parent_ranked rk (logical_buffers s)"
    and keys: "set ks = dom (logical_buffers s)"
  shows "\<exists>bufs'. fix_lifetime ks s = Some (Inr (s\<lparr>logical_buffers := bufs'\<rparr>))
    \<and> (\<forall>k. bufs' k = None \<longleftrightarrow> logical_buffers s k = None)
    \<and> (\<forall>k b p. logical_buffers s k = Some b \<and> lb_parent b = Some p \<longrightarrow>
          (\<exists>d r. bufs' k = Some (b\<lparr>lb_parent := Some d\<rparr>)
             \<and> alias_root (logical_buffers s) k (pd_parent d)
             \<and> bufs' (pd_parent d) = Some r \<and> lb_parent r = None
             \<and> birth (lb_lifetime r) \<le> birth (lb_lifetime b)
             \<and> lifetime_end (lb_lifetime b) \<le> lifetime_end (lb_lifetime r)))
    \<and> (\<forall>r b. logical_buffers s r = Some b \<and> lb_parent b = None \<longrightarrow>
          (\<exists>l. bufs' r = Some (b\<lparr>lb_lifetime := l\<rparr>)
             \<and> birth l = Min (birth_of (logical_buffers s) ` {c. alias_root (logical_buffers s) c r})
             \<and> lifetime_end l = Max (end_of (logical_buffers s) ` {c. alias_root (logical_buffers s) c r})))"
proof -
  let ?bufs = "logical_buffers s"
  from fix_lifetime_buffers_result [OF ranked keys] obtain bufs1 bufs' where
    run: "fix_lifetime_buffers ks ?bufs = Some (Inr bufs')"
    and top: "\<forall>k b d. ?bufs k = Some b \<and> top_descriptor ?bufs k d \<longrightarrow>
          bufs1 k = Some (b\<lparr>lb_parent := Some d\<rparr>) \<and> bufs' k = Some (b\<lparr>lb_parent := Some d\<rparr>)"
    and root: "\<forall>r b. ?bufs r = Some b \<and> lb_parent b = None \<longrightarrow>
          bufs1 r = Some b
          \<and> (\<exists>l. bufs' r = Some (b\<lparr>lb_lifetime := l\<rparr>)
             \<and> used_count l = used_count (lb_lifetime b)
             \<and> birth l = Min (birth_of ?bufs ` {c. alias_root ?bufs c r})
             \<and> lifetime_end l = Max (end_of ?bufs ` {c. alias_root ?bufs c r}))"
    and dom: "\<forall>k. bufs' k = None \<longleftrightarrow> ?bufs k = None"
    by (elim exE conjE)
  have fin: "finite {c. alias_root ?bufs c r}" for r
    by (rule alias_class_finite) (use keys in \<open>metis List.finite_set\<close>)
  have run': "fix_lifetime ks s = Some (Inr (s\<lparr>logical_buffers := bufs'\<rparr>))"
    by (simp add: fix_lifetime_def run obind_return)
  have children: "\<exists>d r. bufs' k = Some (b\<lparr>lb_parent := Some d\<rparr>)
             \<and> alias_root ?bufs k (pd_parent d)
             \<and> bufs' (pd_parent d) = Some r \<and> lb_parent r = None
             \<and> birth (lb_lifetime r) \<le> birth (lb_lifetime b)
             \<and> lifetime_end (lb_lifetime b) \<le> lifetime_end (lb_lifetime r)"
    if b: "?bufs k = Some b" and p: "lb_parent b = Some p" for k b p
  proof -
    from top_descriptor_exists [OF ranked b p] obtain d where d: "top_descriptor ?bufs k d" ..
    with top b have k': "bufs' k = Some (b\<lparr>lb_parent := Some d\<rparr>)" by blast
    have ar: "alias_root ?bufs k (pd_parent d)" by (rule top_descriptor_alias_root [OF d])
    from top_descriptor_root [OF d] obtain rb where
      rb: "?bufs (pd_parent d) = Some rb" "lb_parent rb = None" by auto
    with root obtain l where l: "bufs' (pd_parent d) = Some (rb\<lparr>lb_lifetime := l\<rparr>)"
      "birth l = Min (birth_of ?bufs ` {c. alias_root ?bufs c (pd_parent d)})"
      "lifetime_end l = Max (end_of ?bufs ` {c. alias_root ?bufs c (pd_parent d)})"
      by blast
    have "birth l \<le> birth_of ?bufs k"
      unfolding l(2) using ar fin by (intro Min_le) auto
    moreover have "end_of ?bufs k \<le> lifetime_end l"
      unfolding l(3) using ar fin by (intro Max_ge) auto
    ultimately have "birth l \<le> birth (lb_lifetime b)" "lifetime_end (lb_lifetime b) \<le> lifetime_end l"
      using b by (simp_all add: birth_of_def end_of_def)
    with k' ar l(1) rb(2) show ?thesis
      by (intro exI [of _ d] exI [of _ "rb\<lparr>lb_lifetime := l\<rparr>"]) simp
  qed
  have roots: "\<exists>l. bufs' r = Some (b\<lparr>lb_lifetime := l\<rparr>)
             \<and> birth l = Min (birth_of ?bufs ` {c. alias_root ?bufs c r})
             \<and> lifetime_end l = Max (end_of ?bufs ` {c. alias_root ?bufs c r})"
    if "?bufs r = Some b" "lb_parent b = None" for r b
    using root that by blast
  show ?thesis
  proof (intro exI [of _ bufs'] conjI)
    show "fix_lifetime ks s = Some (Inr (s\<lparr>logical_buffers := bufs'\<rparr>))" by (rule run')
    show "\<forall>k. bufs' k = None \<longleftrightarrow> ?bufs k = None" by (rule dom)
    show "\<forall>k b p. ?bufs k = Some b \<and> lb_parent b = Some p \<longrightarrow>
          (\<exists>d r. bufs' k = Some (b\<lparr>lb_parent := Some d\<rparr>)
             \<and> alias_root ?bufs k (pd_parent d)
             \<and> bufs' (pd_parent d) = Some r \<and> lb_parent r = None
             \<and> birth (lb_lifetime r) \<le> birth (lb_lifetime b)
             \<and> lifetime_end (lb_lifetime b) \<le> lifetime_end (lb_lifetime r))"
      using children by blast
    show "\<forall>r b. ?bufs r = Some b \<and> lb_parent b = None \<longrightarrow>
          (\<exists>l. bufs' r = Some (b\<lparr>lb_lifetime := l\<rparr>)
             \<and> birth l = Min (birth_of ?bufs ` {c. alias_root ?bufs c r})
             \<and> lifetime_end l = Max (end_of ?bufs ` {c. alias_root ?bufs c r}))"
      using roots by blast
  qed
qed

text \<open>
  C10. A buffer \<open>k\<close> whose parent \<open>pb\<close> has a parent itself (a chain of length two or
  more) leaves the root promotion of \<open>fix_lifetime\<close> with the whole parent descriptor
  \<open>d\<close> of a proper ancestor \<open>a\<close>, as it stood before the pass: the pointer and the
  begin are those stored on the ancestor, and the begin \<open>k\<close> had is gone, not added. When
  the chain has length two, \<open>d\<close> is the descriptor \<open>q\<close> of the parent. The second loop of
  \<open>fix_lifetime\<close> keeps it.
\<close>

theorem root_promotion_copies_descriptor:
  assumes ranked: "parent_ranked rk (logical_buffers s)"
    and keys: "set ks = dom (logical_buffers s)"
    and k: "logical_buffers s k = Some b" "lb_parent b = Some p"
    and parent: "logical_buffers s (pd_parent p) = Some pb" "lb_parent pb = Some q"
  shows "\<exists>bufs1 bufs' a ab d.
      vfold assign_parent ks (logical_buffers s) = Some (Inr bufs1)
    \<and> fix_lifetime ks s = Some (Inr (s\<lparr>logical_buffers := bufs'\<rparr>))
    \<and> proper_ancestor (logical_buffers s) k a
    \<and> logical_buffers s a = Some ab \<and> lb_parent ab = Some d
    \<and> bufs1 k = Some (b\<lparr>lb_parent := Some d\<rparr>)
    \<and> bufs' k = Some (b\<lparr>lb_parent := Some d\<rparr>)
    \<and> (lb_parent (the (logical_buffers s (pd_parent q))) = None \<longrightarrow> d = q)"
proof -
  let ?bufs = "logical_buffers s"
  from fix_lifetime_buffers_result [OF ranked keys] obtain bufs1 bufs' where
    run1: "vfold assign_parent ks ?bufs = Some (Inr bufs1)"
    and run: "fix_lifetime_buffers ks ?bufs = Some (Inr bufs')"
    and top: "\<forall>k b d. ?bufs k = Some b \<and> top_descriptor ?bufs k d \<longrightarrow>
          bufs1 k = Some (b\<lparr>lb_parent := Some d\<rparr>) \<and> bufs' k = Some (b\<lparr>lb_parent := Some d\<rparr>)"
    by (elim exE conjE)
  have run': "fix_lifetime ks s = Some (Inr (s\<lparr>logical_buffers := bufs'\<rparr>))"
    by (simp add: fix_lifetime_def run obind_return)
  from top_descriptor_exists [OF ranked parent] obtain d where d: "top_descriptor ?bufs (pd_parent p) d" ..
  then have dk: "top_descriptor ?bufs k d" using k by (auto intro: top_descriptor.further)
  from top_descriptor_stored [OF d] obtain a ab where
    a: "a = pd_parent p \<or> proper_ancestor ?bufs (pd_parent p) a" "?bufs a = Some ab" "lb_parent ab = Some d"
    by blast
  from a(1) k have anc: "proper_ancestor ?bufs k a" by (auto intro: proper_ancestor.intros)
  from top k(1) dk have res: "bufs1 k = Some (b\<lparr>lb_parent := Some d\<rparr>)" "bufs' k = Some (b\<lparr>lb_parent := Some d\<rparr>)"
    by blast+
  have two: "d = q" if "lb_parent (the (?bufs (pd_parent q))) = None"
  proof -
    from ranked parent obtain g where g: "?bufs (pd_parent q) = Some g"
      unfolding parent_ranked_def by blast
    with that have "lb_parent g = None" by simp
    with parent g have "top_descriptor ?bufs (pd_parent p) q" by (auto intro: top_descriptor.below_root)
    with d show ?thesis by (rule top_descriptor_unique)
  qed
  show ?thesis
    by (intro exI [of _ bufs1] exI [of _ bufs'] exI [of _ a] exI [of _ ab] exI [of _ d] conjI
        run1 run' anc a(2,3) res) (use two in simp)
qed


lemma chain_ranked: "parent_ranked (\<lambda>k. k) (logical_buffers chain_scheduler)"
  by (auto simp: parent_ranked_def chain_scheduler_def chain_buffers_def split: if_splits)

lemma chain_keys: "set [2, 1, 0] = dom (logical_buffers chain_scheduler)"
  by (auto simp: chain_scheduler_def chain_buffers_def split: if_splits)

lemma chain_facts:
  "logical_buffers chain_scheduler 2 = Some (the (chain_buffers 2))"
  "lb_parent (the (chain_buffers 2)) = Some \<lparr>pd_parent = 1, pd_begin = [1]\<rparr>"
  "logical_buffers chain_scheduler (pd_parent \<lparr>pd_parent = 1, pd_begin = [1]\<rparr>) = Some (the (chain_buffers 1))"
  "lb_parent (the (chain_buffers 1)) = Some \<lparr>pd_parent = 0, pd_begin = [2]\<rparr>"
  "lb_parent (the (logical_buffers chain_scheduler (pd_parent \<lparr>pd_parent = 0, pd_begin = [2]\<rparr>))) = None"
  "lb_lifetime (the (chain_buffers 2)) = \<lparr>used_count = 0, birth = 0, age = 1\<rparr>"
  by (simp_all add: chain_scheduler_def chain_buffers_def)

theorem root_promotion_copies_descriptor_witness:
  "parent_ranked (\<lambda>k. k) (logical_buffers chain_scheduler)
   \<and> lb_parent (the (chain_buffers 2)) = Some \<lparr>pd_parent = 1, pd_begin = [1]\<rparr>
   \<and> (\<exists>bufs'. fix_lifetime [2, 1, 0] chain_scheduler = Some (Inr (chain_scheduler\<lparr>logical_buffers := bufs'\<rparr>))
        \<and> lb_parent (the (bufs' 2)) = Some \<lparr>pd_parent = 0, pd_begin = [2]\<rparr>)"
proof -
  from root_promotion_copies_descriptor [OF chain_ranked chain_keys chain_facts(1-4)]
  obtain bufs1 bufs' a ab d where
    "vfold assign_parent [2, 1, 0] (logical_buffers chain_scheduler) = Some (Inr bufs1)"
    "fix_lifetime [2, 1, 0] chain_scheduler = Some (Inr (chain_scheduler\<lparr>logical_buffers := bufs'\<rparr>))"
    "proper_ancestor (logical_buffers chain_scheduler) 2 a"
    "logical_buffers chain_scheduler a = Some ab" "lb_parent ab = Some d"
    "bufs1 2 = Some ((the (chain_buffers 2))\<lparr>lb_parent := Some d\<rparr>)"
    "bufs' 2 = Some ((the (chain_buffers 2))\<lparr>lb_parent := Some d\<rparr>)"
    "lb_parent (the (logical_buffers chain_scheduler (pd_parent \<lparr>pd_parent = 0, pd_begin = [2]\<rparr>))) = None
       \<longrightarrow> d = \<lparr>pd_parent = 0, pd_begin = [2]\<rparr>"
    by (elim exE conjE)
  with chain_facts(5) have "fix_lifetime [2, 1, 0] chain_scheduler = Some (Inr (chain_scheduler\<lparr>logical_buffers := bufs'\<rparr>))
        \<and> lb_parent (the (bufs' 2)) = Some \<lparr>pd_parent = 0, pd_begin = [2]\<rparr>"
    by simp
  with chain_ranked chain_facts(2) show ?thesis by blast
qed

theorem fix_lifetime_closes_witness:
  "parent_ranked (\<lambda>k. k) (logical_buffers chain_scheduler)
   \<and> set [2, 1, 0] = dom (logical_buffers chain_scheduler)
   \<and> (\<exists>bufs' d r. fix_lifetime [2, 1, 0] chain_scheduler = Some (Inr (chain_scheduler\<lparr>logical_buffers := bufs'\<rparr>))
        \<and> bufs' 2 = Some ((the (chain_buffers 2))\<lparr>lb_parent := Some d\<rparr>)
        \<and> alias_root (logical_buffers chain_scheduler) 2 (pd_parent d)
        \<and> bufs' (pd_parent d) = Some r \<and> lb_parent r = None
        \<and> birth (lb_lifetime r) \<le> 0 \<and> 1 \<le> lifetime_end (lb_lifetime r))"
proof -
  from fix_lifetime_closes [OF chain_ranked chain_keys] obtain bufs' where
    run: "fix_lifetime [2, 1, 0] chain_scheduler = Some (Inr (chain_scheduler\<lparr>logical_buffers := bufs'\<rparr>))"
    and ch: "\<forall>k b p. logical_buffers chain_scheduler k = Some b \<and> lb_parent b = Some p \<longrightarrow>
          (\<exists>d r. bufs' k = Some (b\<lparr>lb_parent := Some d\<rparr>)
             \<and> alias_root (logical_buffers chain_scheduler) k (pd_parent d)
             \<and> bufs' (pd_parent d) = Some r \<and> lb_parent r = None
             \<and> birth (lb_lifetime r) \<le> birth (lb_lifetime b)
             \<and> lifetime_end (lb_lifetime b) \<le> lifetime_end (lb_lifetime r))"
    by (elim exE conjE)
  from ch [rule_format, OF conjI, OF chain_facts(1,2)] obtain d r where
    "bufs' 2 = Some ((the (chain_buffers 2))\<lparr>lb_parent := Some d\<rparr>)"
    "alias_root (logical_buffers chain_scheduler) 2 (pd_parent d)"
    "bufs' (pd_parent d) = Some r" "lb_parent r = None"
    "birth (lb_lifetime r) \<le> birth (lb_lifetime (the (chain_buffers 2)))"
    "lifetime_end (lb_lifetime (the (chain_buffers 2))) \<le> lifetime_end (lb_lifetime r)"
    by blast
  with run have "\<exists>bufs' d r. fix_lifetime [2, 1, 0] chain_scheduler = Some (Inr (chain_scheduler\<lparr>logical_buffers := bufs'\<rparr>))
        \<and> bufs' 2 = Some ((the (chain_buffers 2))\<lparr>lb_parent := Some d\<rparr>)
        \<and> alias_root (logical_buffers chain_scheduler) 2 (pd_parent d)
        \<and> bufs' (pd_parent d) = Some r \<and> lb_parent r = None
        \<and> birth (lb_lifetime r) \<le> 0 \<and> 1 \<le> lifetime_end (lb_lifetime r)"
    by (intro exI [of _ bufs'] exI [of _ d] exI [of _ r]) (simp add: chain_facts(6) lifetime_end_def)
  with chain_ranked chain_keys show ?thesis by blast
qed

section \<open>The physical pool\<close>

lemma fold_make_physical_visit:
  "distinct ks \<Longrightarrow> set ks \<inter> fst ` set ids = {} \<Longrightarrow>
   fold (make_physical_visit bufs) ks (ids, pbs)
     = (ids @ map (\<lambda>(i, k). (k, i)) (enumerate (length ids) (filter (is_root bufs) ks)),
        pbs @ map (new_physical bufs) (enumerate (length ids) (filter (is_root bufs) ks)))"
proof (induction ks arbitrary: ids pbs)
  case Nil
  show ?case by simp
next
  case (Cons k ks)
  show ?case
  proof (cases "is_root bufs k")
    case False
    then have "make_physical_visit bufs k (ids, pbs) = (ids, pbs)"
      by (auto simp: make_physical_visit_def is_root_def split: option.splits)
    with False Cons show ?thesis by simp
  next
    case True
    then obtain b where b: "bufs k = Some b" "lb_parent b = None"
      by (auto simp: is_root_def split: option.splits)
    have nk: "map_of ids k = None" using Cons.prems(2) by (auto simp: map_of_eq_None_iff)
    have step: "make_physical_visit bufs k (ids, pbs)
        = (ids @ [(k, length ids)], pbs @ [new_physical bufs (length ids, k)])"
      using b nk by (simp add: make_physical_visit_def physical_ids_emplace_def new_physical_def Let_def)
    have "set ks \<inter> fst ` set (ids @ [(k, length ids)]) = {}"
      using Cons.prems by auto
    with Cons.IH [of "ids @ [(k, length ids)]" "pbs @ [new_physical bufs (length ids, k)]"] Cons.prems(1)
    show ?thesis using True by (simp add: step)
  qed
qed

lemma efold_bind_physical:
  assumes "\<And>k. k \<in> set ks \<Longrightarrow> \<exists>b i. cur k = Some b \<and> map_of ids (root_key b k) = Some i \<and> i < n"
  shows "\<exists>res. efold (bind_physical ids n) ks cur = Inr res
     \<and> (\<forall>k. res k = (if k \<in> set ks
            then Some ((the (cur k))\<lparr>lb_physical := map_of ids (root_key (the (cur k)) k)\<rparr>)
            else cur k))"
  using assms
proof (induction ks arbitrary: cur)
  case Nil
  show ?case by simp
next
  case (Cons k ks)
  from Cons.prems [of k] obtain b i where b: "cur k = Some b" "map_of ids (root_key b k) = Some i" "i < n"
    by auto
  let ?cur1 = "cur(k \<mapsto> b\<lparr>lb_physical := Some i\<rparr>)"
  have step: "bind_physical ids n k cur = Inr ?cur1"
    using b by (simp add: bind_physical_def root_key_def Let_def)
  have pre: "\<exists>b i. ?cur1 a = Some b \<and> map_of ids (root_key b a) = Some i \<and> i < n" if "a \<in> set ks" for a
  proof (cases "a = k")
    case True
    with b show ?thesis by (simp add: root_key_def)
  next
    case False
    with Cons.prems [of a] that show ?thesis by simp
  qed
  from Cons.IH [of ?cur1] pre obtain res where
    r: "efold (bind_physical ids n) ks ?cur1 = Inr res"
    and p: "\<forall>a. res a = (if a \<in> set ks
            then Some ((the (?cur1 a))\<lparr>lb_physical := map_of ids (root_key (the (?cur1 a)) a)\<rparr>)
            else ?cur1 a)"
    by blast
  have "res a = (if a \<in> set (k # ks)
            then Some ((the (cur a))\<lparr>lb_physical := map_of ids (root_key (the (cur a)) a)\<rparr>)
            else cur a)" for a
    using p [rule_format, of a] b by (cases "a = k") (auto simp: root_key_def)
  moreover have "efold (bind_physical ids n) (k # ks) cur = Inr res" by (simp add: step r)
  ultimately show ?case by blast
qed

lemma map_of_enumerate_swap:
  "distinct xs \<Longrightarrow> i < length xs \<Longrightarrow> map_of (map (\<lambda>(i, k). (k, i)) (enumerate 0 xs)) (xs ! i) = Some i"
proof (induction xs arbitrary: i rule: rev_induct)
  case Nil
  then show ?case by simp
next
  case (snoc x xs)
  show ?case
  proof (cases "i < length xs")
    case True
    with snoc have "map_of (map (\<lambda>(i, k). (k, i)) (enumerate 0 xs)) (xs ! i) = Some i" by simp
    with True show ?thesis
      by (simp add: enumerate_append_eq nth_append)
  next
    case False
    with snoc.prems have i: "i = length xs" by simp
    have "x \<notin> fst ` set (map (\<lambda>(i, k). (k, i)) (enumerate 0 xs))"
      using snoc.prems(1) by (auto simp: enumerate_eq_zip dest: set_zip_rightD)
    then have "map_of (map (\<lambda>(i, k). (k, i)) (enumerate 0 xs)) x = None"
      by (simp add: map_of_eq_None_iff)
    then show ?thesis by (simp add: i enumerate_append_eq map_add_def)
  qed
qed

lemma flat_alias_root:
  assumes "flat bufs" "bufs k = Some b"
  shows "alias_root bufs k (root_key b k)"
proof (cases "lb_parent b")
  case None
  with assms show ?thesis by (auto simp: root_key_def intro: alias_root.itself)
next
  case (Some d)
  with assms obtain r where "bufs (pd_parent d) = Some r" "lb_parent r = None"
    unfolding flat_def by blast
  then have "alias_root bufs (pd_parent d) (pd_parent d)" by (rule alias_root.itself)
  with assms Some show ?thesis by (auto simp: root_key_def intro: alias_root.parent)
qed

lemma flat_root_key_is_root:
  assumes "flat bufs" "bufs k = Some b"
  shows "is_root bufs (root_key b k)"
proof (cases "lb_parent b")
  case None
  with assms show ?thesis by (simp add: root_key_def is_root_def)
next
  case (Some d)
  with assms obtain r where "bufs (pd_parent d) = Some r" "lb_parent r = None"
    unfolding flat_def by blast
  with Some show ?thesis by (simp add: root_key_def is_root_def)
qed

lemma make_physical_buffers_result:
  assumes flat: "flat (logical_buffers s)"
    and dist: "distinct ks"
    and keys: "set ks = dom (logical_buffers s)"
    and fresh: "physical_buffers s = []"
  shows "\<exists>bufs'. make_physical_buffers ks s
        = Inr (s\<lparr>logical_buffers := bufs',
                 physical_buffers := map (new_physical (logical_buffers s))
                    (enumerate 0 (filter (is_root (logical_buffers s)) ks))\<rparr>)
     \<and> (\<forall>k. bufs' k = None \<longleftrightarrow> logical_buffers s k = None)
     \<and> (\<forall>k b. logical_buffers s k = Some b \<longrightarrow>
           (\<exists>i. bufs' k = Some (b\<lparr>lb_physical := Some i\<rparr>)
              \<and> i < length (filter (is_root (logical_buffers s)) ks)
              \<and> filter (is_root (logical_buffers s)) ks ! i = root_key b k))"
proof -
  let ?bufs = "logical_buffers s"
  let ?R = "filter (is_root ?bufs) ks"
  let ?ids = "map (\<lambda>(i, k). (k, i)) (enumerate 0 ?R)"
  let ?pbs = "map (new_physical ?bufs) (enumerate 0 ?R)"
  have fold: "fold (make_physical_visit ?bufs) ks ([], physical_buffers s) = (?ids, ?pbs)"
    using fold_make_physical_visit [OF dist, of "[]" ?bufs "[]"] by (simp add: fresh)
  have dR: "distinct ?R" using dist by simp
  have idx: "\<exists>i. i < length ?R \<and> ?R ! i = root_key b k \<and> map_of ?ids (root_key b k) = Some i"
    if b: "?bufs k = Some b" for k b
  proof -
    have root: "is_root ?bufs (root_key b k)" by (rule flat_root_key_is_root [OF flat b])
    then have "root_key b k \<in> dom ?bufs" by (auto simp: is_root_def split: option.splits)
    with keys root have "root_key b k \<in> set ?R" by simp
    then obtain i where i: "i < length ?R" "?R ! i = root_key b k"
      unfolding in_set_conv_nth by blast
    with map_of_enumerate_swap [OF dR i(1)] show ?thesis by auto
  qed
  have pre: "\<exists>b i. ?bufs k = Some b \<and> map_of ?ids (root_key b k) = Some i \<and> i < length ?pbs"
    if "k \<in> set ks" for k
  proof -
    from that keys obtain b where b: "?bufs k = Some b" by auto
    from idx [OF b] b show ?thesis by auto
  qed
  from efold_bind_physical [of ks ?bufs ?ids "length ?pbs"] pre obtain bufs' where
    run2: "efold (bind_physical ?ids (length ?pbs)) ks ?bufs = Inr bufs'"
    and res: "\<forall>k. bufs' k = (if k \<in> set ks
            then Some ((the (?bufs k))\<lparr>lb_physical := map_of ?ids (root_key (the (?bufs k)) k)\<rparr>)
            else ?bufs k)"
    by blast
  have run: "make_physical_buffers ks s = Inr (s\<lparr>logical_buffers := bufs', physical_buffers := ?pbs\<rparr>)"
    using run2 by (simp add: make_physical_buffers_def fold)
  have dom: "bufs' k = None \<longleftrightarrow> ?bufs k = None" for k
    using res [rule_format, of k] keys by (auto split: if_splits)
  have each: "\<exists>i. bufs' k = Some (b\<lparr>lb_physical := Some i\<rparr>) \<and> i < length ?R \<and> ?R ! i = root_key b k"
    if b: "?bufs k = Some b" for k b
  proof -
    from idx [OF b] obtain i where i: "i < length ?R" "?R ! i = root_key b k"
      "map_of ?ids (root_key b k) = Some i" by blast
    from b keys have "k \<in> set ks" by auto
    with res [rule_format, of k] b i(3) have "bufs' k = Some (b\<lparr>lb_physical := Some i\<rparr>)" by simp
    with i show ?thesis by blast
  qed
  show ?thesis
    by (intro exI [of _ bufs'] conjI allI impI run dom each)
qed

text \<open>
  C8. On buffers whose parents are roots (what \<open>fix_lifetime\<close> leaves), with \<open>ks\<close> the
  keys of the map, each once, in the order the map enumerates them, and no physical
  buffer yet, \<open>make_physical_buffers\<close> returns; the owners of the physical buffers are
  the logical buffers without a parent, each once, in that order; the ids are
  \<open>0, 1, 2, ...\<close>; every logical buffer is bound to the physical buffer owned by its
  alias root and is otherwise unchanged; so two logical buffers share their physical
  buffer exactly when they have the same root.
\<close>

theorem make_physical_buffers_one_per_root:
  assumes flat: "flat (logical_buffers s)"
    and dist: "distinct ks"
    and keys: "set ks = dom (logical_buffers s)"
    and fresh: "physical_buffers s = []"
  shows "\<exists>s'. make_physical_buffers ks s = Inr s'
     \<and> map pb_owner (physical_buffers s') = filter (is_root (logical_buffers s)) ks
     \<and> distinct (map pb_owner (physical_buffers s'))
     \<and> set (map pb_owner (physical_buffers s')) = {k. is_root (logical_buffers s) k}
     \<and> map pb_id (physical_buffers s') = [0 ..< length (physical_buffers s')]
     \<and> (\<forall>k b. logical_buffers s k = Some b \<longrightarrow>
           (\<exists>i. logical_buffers s' k = Some (b\<lparr>lb_physical := Some i\<rparr>)
              \<and> i < length (physical_buffers s')
              \<and> alias_root (logical_buffers s) k (pb_owner (physical_buffers s' ! i))))
     \<and> (\<forall>k1 k2 b1 b2 r1 r2.
           logical_buffers s' k1 = Some b1 \<and> logical_buffers s' k2 = Some b2
           \<and> alias_root (logical_buffers s) k1 r1 \<and> alias_root (logical_buffers s) k2 r2
           \<longrightarrow> (lb_physical b1 = lb_physical b2 \<longleftrightarrow> r1 = r2))"
proof -
  let ?bufs = "logical_buffers s"
  let ?R = "filter (is_root ?bufs) ks"
  let ?pbs = "map (new_physical ?bufs) (enumerate 0 ?R)"
  from make_physical_buffers_result [OF flat dist keys fresh] obtain bufs' where
    run: "make_physical_buffers ks s = Inr (s\<lparr>logical_buffers := bufs', physical_buffers := ?pbs\<rparr>)"
    and dom: "\<forall>k. bufs' k = None \<longleftrightarrow> ?bufs k = None"
    and each: "\<forall>k b. ?bufs k = Some b \<longrightarrow>
           (\<exists>i. bufs' k = Some (b\<lparr>lb_physical := Some i\<rparr>) \<and> i < length ?R \<and> ?R ! i = root_key b k)"
    by (elim exE conjE)
  let ?s' = "s\<lparr>logical_buffers := bufs', physical_buffers := ?pbs\<rparr>"
  have owners: "map pb_owner ?pbs = ?R"
    by (simp add: new_physical_def case_prod_unfold comp_def flip: map_map [of snd])
  have ids: "map pb_id ?pbs = [0 ..< length ?pbs]"
    by (simp add: new_physical_def case_prod_unfold comp_def)
  have dR: "distinct ?R" using dist by simp
  have sR: "set ?R = {k. is_root ?bufs k}"
    using keys by (auto simp: is_root_def split: option.splits)
  have nth: "pb_owner (?pbs ! i) = ?R ! i" if "i < length ?R" for i
    using that by (simp add: new_physical_def nth_enumerate_eq)
  have bound: "\<exists>i. bufs' k = Some (b\<lparr>lb_physical := Some i\<rparr>) \<and> i < length ?pbs
      \<and> alias_root ?bufs k (pb_owner (?pbs ! i))"
    if b: "?bufs k = Some b" for k b
  proof -
    from each b obtain i where i: "bufs' k = Some (b\<lparr>lb_physical := Some i\<rparr>)" "i < length ?R"
      "?R ! i = root_key b k" by blast
    from flat_alias_root [OF flat b] i nth [OF i(2)] show ?thesis by auto
  qed
  have shared: "lb_physical b1 = lb_physical b2 \<longleftrightarrow> r1 = r2"
    if h: "bufs' k1 = Some b1" "bufs' k2 = Some b2" "alias_root ?bufs k1 r1" "alias_root ?bufs k2 r2"
    for k1 k2 b1 b2 r1 r2
  proof -
    from alias_root_dom [OF h(3)] obtain c1 where c1: "?bufs k1 = Some c1" by auto
    from alias_root_dom [OF h(4)] obtain c2 where c2: "?bufs k2 = Some c2" by auto
    from each c1 h(1) obtain i1 where i1: "lb_physical b1 = Some i1" "i1 < length ?R" "?R ! i1 = root_key c1 k1"
      by fastforce
    from each c2 h(2) obtain i2 where i2: "lb_physical b2 = Some i2" "i2 < length ?R" "?R ! i2 = root_key c2 k2"
      by fastforce
    have "root_key c1 k1 = r1" using flat_alias_root [OF flat c1] h(3) by (rule alias_root_unique)
    moreover have "root_key c2 k2 = r2" using flat_alias_root [OF flat c2] h(4) by (rule alias_root_unique)
    ultimately have "r1 = r2 \<longleftrightarrow> ?R ! i1 = ?R ! i2" using i1 i2 by simp
    also have "\<dots> \<longleftrightarrow> i1 = i2" using dR i1(2) i2(2) by (simp add: nth_eq_iff_index_eq)
    finally show ?thesis using i1(1) i2(1) by auto
  qed
  show ?thesis
  proof (intro exI [of _ ?s'] conjI)
    show "make_physical_buffers ks s = Inr ?s'" by (rule run)
    show "map pb_owner (physical_buffers ?s') = ?R" using owners by simp
    show "distinct (map pb_owner (physical_buffers ?s'))" using owners dR by simp
    show "set (map pb_owner (physical_buffers ?s')) = {k. is_root ?bufs k}" using owners sR by simp
    show "map pb_id (physical_buffers ?s') = [0 ..< length (physical_buffers ?s')]" using ids by simp
    show "\<forall>k b. ?bufs k = Some b \<longrightarrow>
           (\<exists>i. logical_buffers ?s' k = Some (b\<lparr>lb_physical := Some i\<rparr>)
              \<and> i < length (physical_buffers ?s')
              \<and> alias_root ?bufs k (pb_owner (physical_buffers ?s' ! i)))"
      using bound by simp
    show "\<forall>k1 k2 b1 b2 r1 r2.
           logical_buffers ?s' k1 = Some b1 \<and> logical_buffers ?s' k2 = Some b2
           \<and> alias_root ?bufs k1 r1 \<and> alias_root ?bufs k2 r2
           \<longrightarrow> (lb_physical b1 = lb_physical b2 \<longleftrightarrow> r1 = r2)"
      using shared by simp blast
  qed
qed


lemma concat_view_flat: "flat (logical_buffers concat_view_scheduler)"
  by (auto simp: flat_def concat_view_scheduler_def concat_view_buffers_def split: if_splits)

lemma concat_view_keys: "set [1, 2, 0] = dom (logical_buffers concat_view_scheduler)"
  by (auto simp: concat_view_scheduler_def concat_view_buffers_def split: if_splits)

lemma concat_view_roots:
  "filter (is_root (logical_buffers concat_view_scheduler)) [1, 2, 0] = [2]"
  by (simp add: is_root_def concat_view_scheduler_def concat_view_buffers_def)

lemma concat_view_alias_root:
  "alias_root (logical_buffers concat_view_scheduler) 0 2"
  "alias_root (logical_buffers concat_view_scheduler) 1 2"
proof -
  have b: "logical_buffers concat_view_scheduler 2 = Some (the (concat_view_buffers 2))"
    "lb_parent (the (concat_view_buffers 2)) = None"
    "logical_buffers concat_view_scheduler 0 = Some (the (concat_view_buffers 0))"
    "lb_parent (the (concat_view_buffers 0)) = Some \<lparr>pd_parent = 2, pd_begin = [0, 0]\<rparr>"
    "logical_buffers concat_view_scheduler 1 = Some (the (concat_view_buffers 1))"
    "lb_parent (the (concat_view_buffers 1)) = Some \<lparr>pd_parent = 2, pd_begin = [2, 0]\<rparr>"
    by (simp_all add: concat_view_scheduler_def concat_view_buffers_def)
  have r: "alias_root (logical_buffers concat_view_scheduler) 2 2"
    by (rule alias_root.itself [where bufs = "logical_buffers concat_view_scheduler" and k = 2, OF b(1,2)])
  show "alias_root (logical_buffers concat_view_scheduler) 0 2"
    by (rule alias_root.parent [where bufs = "logical_buffers concat_view_scheduler" and k = 0, OF b(3,4)]) (simp add: r)
  show "alias_root (logical_buffers concat_view_scheduler) 1 2"
    by (rule alias_root.parent [where bufs = "logical_buffers concat_view_scheduler" and k = 1, OF b(5,6)]) (simp add: r)
qed

theorem make_physical_buffers_one_per_root_witness:
  "flat (logical_buffers concat_view_scheduler)
   \<and> distinct [1, 2, 0 :: nat]
   \<and> set [1, 2, 0] = dom (logical_buffers concat_view_scheduler)
   \<and> physical_buffers concat_view_scheduler = []
   \<and> (\<exists>s' b0 b1. make_physical_buffers [1, 2, 0] concat_view_scheduler = Inr s'
        \<and> map pb_owner (physical_buffers s') = [2]
        \<and> map pb_id (physical_buffers s') = [0]
        \<and> logical_buffers s' 0 = Some b0 \<and> logical_buffers s' 1 = Some b1
        \<and> lb_physical b0 = lb_physical b1)"
proof -
  have d: "distinct [1, 2, 0 :: nat]" by simp
  have f: "physical_buffers concat_view_scheduler = []" by (simp add: concat_view_scheduler_def)
  from make_physical_buffers_one_per_root [OF concat_view_flat d concat_view_keys f]
  obtain s' where run: "make_physical_buffers [1, 2, 0] concat_view_scheduler = Inr s'"
    and owners: "map pb_owner (physical_buffers s') = filter (is_root (logical_buffers concat_view_scheduler)) [1, 2, 0]"
    and ids: "map pb_id (physical_buffers s') = [0 ..< length (physical_buffers s')]"
    and bound: "\<forall>k b. logical_buffers concat_view_scheduler k = Some b \<longrightarrow>
           (\<exists>i. logical_buffers s' k = Some (b\<lparr>lb_physical := Some i\<rparr>)
              \<and> i < length (physical_buffers s')
              \<and> alias_root (logical_buffers concat_view_scheduler) k (pb_owner (physical_buffers s' ! i)))"
    and shared: "\<forall>k1 k2 b1 b2 r1 r2.
           logical_buffers s' k1 = Some b1 \<and> logical_buffers s' k2 = Some b2
           \<and> alias_root (logical_buffers concat_view_scheduler) k1 r1
           \<and> alias_root (logical_buffers concat_view_scheduler) k2 r2
           \<longrightarrow> (lb_physical b1 = lb_physical b2 \<longleftrightarrow> r1 = r2)"
    by (elim exE conjE)
  have o: "map pb_owner (physical_buffers s') = [2]" using owners by (simp only: concat_view_roots)
  then have "length (physical_buffers s') = 1" by (metis length_map length_Cons list.size(3) One_nat_def)
  with ids have i: "map pb_id (physical_buffers s') = [0]" by simp
  have "logical_buffers concat_view_scheduler 0 \<noteq> None" "logical_buffers concat_view_scheduler 1 \<noteq> None"
    by (simp_all add: concat_view_scheduler_def concat_view_buffers_def)
  with bound obtain b0 b1 where b: "logical_buffers s' 0 = Some b0" "logical_buffers s' 1 = Some b1"
    by (metis option.exhaust)
  from shared b concat_view_alias_root have "lb_physical b0 = lb_physical b1" by blast
  with run o i b have "\<exists>s' b0 b1. make_physical_buffers [1, 2, 0] concat_view_scheduler = Inr s'
        \<and> map pb_owner (physical_buffers s') = [2]
        \<and> map pb_id (physical_buffers s') = [0]
        \<and> logical_buffers s' 0 = Some b0 \<and> logical_buffers s' 1 = Some b1
        \<and> lb_physical b0 = lb_physical b1"
    by (intro exI [of _ s'] exI [of _ b0] exI [of _ b1]) simp
  then show ?thesis by (intro conjI concat_view_flat d concat_view_keys f)
qed

section \<open>The allocation materialiser\<close>




lemma to_strides_length: "length (to_strides shape) = length shape"
  by (induction shape) simp_all










end
